theory Spec2Isabelle
  imports Complex_Main "HOL-Library.Multiset" "HOL-Library.Sublist" "HOL-Library.Word"
begin

unbundle bit_operations_syntax

section \<open>Data model of maxcalorie.hh\<close>

text \<open>
  \<^verbatim>\<open>class FoodItem\<close> has three private fields, read through \<^verbatim>\<open>description()\<close>,
  \<^verbatim>\<open>weight()\<close> and \<^verbatim>\<open>foodCalories()\<close>, and no setter. The two \<^verbatim>\<open>double\<close> fields are
  idealised as exact reals: rounding, infinities and NaN are outside this development.
\<close>

record FoodItem =
  description :: string
  weight :: real
  foodCalories :: real

text \<open>The two assertions of the constructor of \<^verbatim>\<open>FoodItem\<close>.\<close>

definition FoodItem_assert :: "FoodItem \<Rightarrow> bool" where
  "FoodItem_assert f \<longleftrightarrow> description f \<noteq> [] \<and> 0 < weight f"

text \<open>
  \<^verbatim>\<open>typedef std::vector<std::shared_ptr<FoodItem>> FoodVector\<close>. The objects live in an
  explicit store: a \<^verbatim>\<open>shared_ptr\<close> is the position of its object in the store, and
  \<^verbatim>\<open>new FoodItem(...)\<close> appends an object to the store and returns its position. Two
  pointers are the same reference exactly when they are the same position.
\<close>

type_synonym heap = "FoodItem list"
type_synonym FoodVector = "nat list"

text \<open>
  A vector the solvers can receive: every pointer owns an object of the store, and the
  object passed the constructor's assertions.
\<close>

definition FoodVector_wf :: "heap \<Rightarrow> FoodVector \<Rightarrow> bool" where
  "FoodVector_wf h foods \<longleftrightarrow> list_all (\<lambda>p. p < length h \<and> FoodItem_assert (h ! p)) foods"

text \<open>The objects a vector points to, in the vector's order.\<close>

definition deref :: "heap \<Rightarrow> FoodVector \<Rightarrow> FoodItem list" where
  "deref h foods = map (\<lambda>p. h ! p) foods"

text \<open>\<^verbatim>\<open>sum_food_vector\<close>: both totals start at 0 and grow item by item, front to back.\<close>

definition sum_food_vector :: "heap \<Rightarrow> FoodVector \<Rightarrow> real \<times> real" where
  "sum_food_vector h foods =
     foldl (\<lambda>(total_weight, total_calories) food.
              (total_weight + weight (h ! food), total_calories + foodCalories (h ! food)))
       (0, 0) foods"

text \<open>
  \<^verbatim>\<open>int(v.size())\<close>: the size, an unsigned 64-bit count, converted to a 32-bit \<^verbatim>\<open>int\<close>
  (reduction modulo \<open>2 ^ 32\<close>, read as two's complement).
\<close>

definition int_of_size :: "nat \<Rightarrow> int" where
  "int_of_size n = sint (word_of_nat n :: 32 word)"

section \<open>greedy_max_calories\<close>

record percentItem =
  percent :: real
  item :: FoodItem

definition sortPercentage :: "percentItem \<Rightarrow> percentItem \<Rightarrow> bool" where
  "sortPercentage firstSet secondSet \<longleftrightarrow> percent firstSet > percent secondSet"

text \<open>
  \<^verbatim>\<open>std::sort(first, last, sortPercentage())\<close> belongs to the C++ library, not to this
  program; the solver takes it as the parameter \<open>std_sort\<close>. What the language promises
  of it: the range afterwards is a permutation of the range before, and no element is
  ordered by the comparator before an element that precedes it. The order of elements the
  comparator does not separate is not promised.
\<close>

definition std_sort_contract :: "(percentItem list \<Rightarrow> percentItem list) \<Rightarrow> bool" where
  "std_sort_contract std_sort \<longleftrightarrow>
     (\<forall>v. mset (std_sort v) = mset v \<and> sorted_wrt (\<lambda>a b. \<not> sortPercentage b a) (std_sort v))"

text \<open>The first loop: one \<^verbatim>\<open>percentItem\<close> per food, holding a copy of the object.\<close>

definition percentItemVector_of :: "heap \<Rightarrow> FoodVector \<Rightarrow> percentItem list" where
  "percentItemVector_of h foods =
     map (\<lambda>food. \<lparr>percent = foodCalories (h ! food) / weight (h ! food), item = h ! food\<rparr>) foods"

record greedy_state =
  store :: heap
  capacity :: real
  GreedyFoodVector :: FoodVector

text \<open>The body of the second loop, at the element \<^verbatim>\<open>percentItemVector[i]\<close>.\<close>

definition greedy_body :: "real \<Rightarrow> greedy_state \<Rightarrow> percentItem \<Rightarrow> greedy_state" where
  "greedy_body total_weight s p =
     (let tempWeight = capacity s + weight (item p) in
      if tempWeight \<le> total_weight
      then \<lparr>store = store s @ [item p],
            capacity = capacity s + weight (item p),
            GreedyFoodVector = GreedyFoodVector s @ [length (store s)]\<rparr>
      else s)"

text \<open>
  The second loop runs \<^verbatim>\<open>i\<close> from 0 while \<^verbatim>\<open>i < int(percentItemVector.size())\<close>. The
  function returns the new vector; the store it returns holds the objects it allocated.
\<close>

definition greedy_max_calories ::
  "(percentItem list \<Rightarrow> percentItem list) \<Rightarrow> heap \<Rightarrow> FoodVector \<Rightarrow> real \<Rightarrow> heap \<times> FoodVector" where
  "greedy_max_calories std_sort h foods total_weight =
     (let percentItemVector = std_sort (percentItemVector_of h foods);
          s = foldl (greedy_body total_weight)
                \<lparr>store = h, capacity = 0, GreedyFoodVector = []\<rparr>
                (take (nat (int_of_size (length percentItemVector))) percentItemVector)
      in (store s, GreedyFoodVector s))"

section \<open>exhaustive_max_calories\<close>

text \<open>
  \<^verbatim>\<open>int bitSize = pow(2, foods.size())\<close> converts a \<^verbatim>\<open>double\<close> to \<^verbatim>\<open>int\<close>: the value is
  truncated towards zero, and the behaviour is undefined when the truncated value is not
  an \<^verbatim>\<open>int\<close>. The undefined case is a result of its own.
\<close>

datatype failure = Undefined_double_to_int

definition double_to_int :: "real \<Rightarrow> failure + int" where
  "double_to_int x =
     (let t = (if 0 \<le> x then \<lfloor>x\<rfloor> else \<lceil>x\<rceil>) in
      if - (2 ^ 31) \<le> t \<and> t < 2 ^ 31 then Inr t else Inl Undefined_double_to_int)"

record exhaustive_state =
  BestFoodVector :: FoodVector
  CandidateFoodVector :: FoodVector
  bestTotalCalries :: real
  candTotalWeight :: real
  candTotalCalories :: real

text \<open>The body of the inner loop, at index \<^verbatim>\<open>j\<close> of the counter value \<^verbatim>\<open>bit\<close> (here \<open>bit'\<close>).\<close>

definition inner_body ::
  "heap \<Rightarrow> FoodVector \<Rightarrow> real \<Rightarrow> int \<Rightarrow> exhaustive_state \<Rightarrow> nat \<Rightarrow> exhaustive_state" where
  "inner_body h foods total_weight bit' s j =
     (let s1 = (if (drop_bit j bit') AND 1 = 1
                then s\<lparr>CandidateFoodVector := CandidateFoodVector s @ [foods ! j],
                       candTotalWeight := candTotalWeight s + weight (h ! (foods ! j)),
                       candTotalCalories := candTotalCalories s + foodCalories (h ! (foods ! j))\<rparr>
                else s)
      in if candTotalWeight s1 \<le> total_weight
         then if candTotalCalories s1 > bestTotalCalries s1
              then s1\<lparr>BestFoodVector :=
                         foldl (\<lambda>best food. best @ [food]) [] (CandidateFoodVector s1),
                      bestTotalCalries := candTotalCalories s1\<rparr>
              else s1
         else s1)"

text \<open>The body of the outer loop: reset the candidate, then run the inner loop.\<close>

definition outer_body ::
  "heap \<Rightarrow> FoodVector \<Rightarrow> real \<Rightarrow> exhaustive_state \<Rightarrow> int \<Rightarrow> exhaustive_state" where
  "outer_body h foods total_weight s bit' =
     foldl (inner_body h foods total_weight bit')
       (s\<lparr>CandidateFoodVector := [], candTotalWeight := 0, candTotalCalories := 0\<rparr>)
       [0..<nat (int_of_size (length foods))]"

definition exhaustive_max_calories :: "heap \<Rightarrow> FoodVector \<Rightarrow> real \<Rightarrow> failure + FoodVector" where
  "exhaustive_max_calories h foods total_weight =
     (case double_to_int (2 ^ length foods) of
        Inl e \<Rightarrow> Inl e
      | Inr bitSize \<Rightarrow>
          Inr (BestFoodVector
                 (foldl (outer_body h foods total_weight)
                    \<lparr>BestFoodVector = [], CandidateFoodVector = foods, bestTotalCalries = 0,
                     candTotalWeight = 0, candTotalCalories = 0\<rparr>
                    (map int [0..<nat bitSize]))))"

section \<open>Notions used to state and prove the properties\<close>

text \<open>
  The subset a counter value \<open>b\<close> denotes among the first \<open>k\<close> foods: the foods at the
  positions \<open>j < k\<close> where bit \<open>j\<close> of \<open>b\<close> is set, in the order of the vector.
\<close>

definition subset_upto :: "FoodVector \<Rightarrow> nat \<Rightarrow> nat \<Rightarrow> FoodVector" where
  "subset_upto foods b k = map (\<lambda>j. foods ! j) (filter (\<lambda>j. bit b j) [0..<k])"

text \<open>
  One comparison of a candidate with the best vector and best calories recorded so far: the
  two nested \<^verbatim>\<open>if\<close>s of the inner loop, on the totals of \<open>S\<close>.
\<close>

definition record_best :: "heap \<Rightarrow> real \<Rightarrow> FoodVector \<times> real \<Rightarrow> FoodVector \<Rightarrow> FoodVector \<times> real" where
  "record_best h W bst S =
     (if fst (sum_food_vector h S) \<le> W \<and> snd (sum_food_vector h S) > snd bst
      then (S, snd (sum_food_vector h S)) else bst)"

text \<open>
  The decisions of the second loop of the greedy solver over a ranking, started with
  accumulated weight \<open>c\<close>: one flag per element, \<open>True\<close> where the element is pushed.
\<close>

fun greedy_flags :: "real \<Rightarrow> real \<Rightarrow> percentItem list \<Rightarrow> bool list" where
  "greedy_flags W c [] = []"
| "greedy_flags W c (p # ps) =
     (if c + weight (item p) \<le> W then True # greedy_flags W (c + weight (item p)) ps
      else False # greedy_flags W c ps)"

text \<open>The elements of a list whose flag is set, in the order of the list.\<close>

definition picked :: "'a list \<Rightarrow> bool list \<Rightarrow> 'a list" where
  "picked xs included = map fst (filter snd (zip xs included))"

text \<open>
  The elements the second loop of the greedy solver visits, those at the indices below
  \<^verbatim>\<open>int(percentItemVector.size())\<close>, and the elements it pushes.
\<close>

definition scanned :: "(percentItem list \<Rightarrow> percentItem list) \<Rightarrow> heap \<Rightarrow> FoodVector \<Rightarrow> percentItem list" where
  "scanned std_sort h foods =
     take (nat (int_of_size (length (std_sort (percentItemVector_of h foods)))))
       (std_sort (percentItemVector_of h foods))"

definition greedy_picked ::
  "(percentItem list \<Rightarrow> percentItem list) \<Rightarrow> heap \<Rightarrow> FoodVector \<Rightarrow> real \<Rightarrow> percentItem list" where
  "greedy_picked std_sort h foods W =
     picked (scanned std_sort h foods) (greedy_flags W 0 (scanned std_sort h foods))"

text \<open>
  A sorting function that keeps the promise of \<^verbatim>\<open>std::sort\<close> and leaves elements of equal
  \<^verbatim>\<open>percent\<close> in their order.
\<close>

definition insertion_sort :: "percentItem list \<Rightarrow> percentItem list" where
  "insertion_sort v = sort_key (\<lambda>p. - percent p) v"

text \<open>
  The exhaustive search as section 4.2 of the specification words it, for the comparison
  with \<open>exhaustive_max_calories\<close>: the counter runs from 0 to \<open>2 ^ n - 1\<close>; each value
  denotes the subset of the items whose bit is set; the totals of that subset are summed
  once, and the subset is recorded when it is feasible and its value strictly exceeds the
  best value so far. The third argument of \<open>exhaustive_spec_search\<close> is the number of
  counter values examined.
\<close>

fun exhaustive_spec_search :: "heap \<Rightarrow> FoodVector \<Rightarrow> real \<Rightarrow> nat \<Rightarrow> FoodVector \<times> real" where
  "exhaustive_spec_search h foods W 0 = ([], 0)"
| "exhaustive_spec_search h foods W (Suc counter) =
     (let (best, best_value) = exhaustive_spec_search h foods W counter;
          subset = [foods ! j. j \<leftarrow> [0..<length foods], bit counter j];
          total_weight = sum_list (map (\<lambda>p. weight (h ! p)) subset);
          total_value = sum_list (map (\<lambda>p. foodCalories (h ! p)) subset)
      in if total_weight \<le> W \<and> total_value > best_value then (subset, total_value)
         else (best, best_value))"

definition exhaustive_select_spec :: "heap \<Rightarrow> FoodVector \<Rightarrow> real \<Rightarrow> FoodVector" where
  "exhaustive_select_spec h foods W = fst (exhaustive_spec_search h foods W (2 ^ length foods))"

text \<open>The catalog of the example in section 8 of the specification.\<close>

definition pantry :: heap where
  "pantry = [\<lparr>description = ''A'', weight = 1, foodCalories = 10\<rparr>,
             \<lparr>description = ''B'', weight = 10, foodCalories = 100\<rparr>,
             \<lparr>description = ''C'', weight = 9, foodCalories = 95\<rparr>]"

section \<open>\<^verbatim>\<open>std::sort\<close> in the GNU C++ library\<close>

text \<open>
  \<open>greedy_max_calories\<close> calls \<^verbatim>\<open>std::sort\<close> of the C++ library. For the question of how
  items of equal ratio are ordered, the sort is modelled as the GNU library implements it
  (\<^verbatim>\<open>bits/stl_algo.h\<close>): \<^verbatim>\<open>std::sort\<close> runs \<^verbatim>\<open>__introsort_loop\<close>, which partitions
  around a median of three while a range has more than 16 elements, and then
  \<^verbatim>\<open>__final_insertion_sort\<close>. The vector is a list; an iterator is a position in it; a
  range is given by the positions \<open>first\<close> and \<open>lastp\<close>; every function returns the
  vector as it leaves it. The parameters \<^verbatim>\<open>__comp\<close>, \<^verbatim>\<open>__last\<close> and \<^verbatim>\<open>__cut\<close> are
  written \<open>cmp\<close>, \<open>lastp\<close> and \<open>cutp\<close>.

  The two inner loops of \<^verbatim>\<open>__unguarded_partition\<close> are \<open>scan_up\<close> and \<open>scan_down\<close>, and
  the loop of \<^verbatim>\<open>__unguarded_linear_insert\<close> is the recursion of
  \<open>gnu_unguarded_linear_insert\<close>. In the library these loops have no bound check, because
  an element that stops them is known to be in the range; here they also stop at the ends
  of the vector. The heap sort \<^verbatim>\<open>std::__partial_sort\<close>, which \<^verbatim>\<open>__introsort_loop\<close> falls
  back to when its depth limit is used up, is the parameter \<open>partial_sort\<close>.
\<close>

definition iter_swap :: "'a list \<Rightarrow> nat \<Rightarrow> nat \<Rightarrow> 'a list" where
  "iter_swap xs a b = xs[a := xs ! b, b := xs ! a]"

fun gnu_unguarded_linear_insert :: "('a \<Rightarrow> 'a \<Rightarrow> bool) \<Rightarrow> 'a \<Rightarrow> 'a list \<Rightarrow> nat \<Rightarrow> 'a list" where
  "gnu_unguarded_linear_insert cmp val xs 0 = xs[0 := val]"
| "gnu_unguarded_linear_insert cmp val xs (Suc next) =
     (if cmp val (xs ! next)
      then gnu_unguarded_linear_insert cmp val (xs[Suc next := xs ! next]) next
      else xs[Suc next := val])"

definition gnu_insertion_step :: "('a \<Rightarrow> 'a \<Rightarrow> bool) \<Rightarrow> 'a list \<Rightarrow> nat \<Rightarrow> 'a list" where
  "gnu_insertion_step cmp xs i =
     (if cmp (xs ! i) (xs ! 0) then (xs ! i) # take i xs @ drop (Suc i) xs
      else gnu_unguarded_linear_insert cmp (xs ! i) xs i)"

definition gnu_insertion_sort :: "('a \<Rightarrow> 'a \<Rightarrow> bool) \<Rightarrow> 'a list \<Rightarrow> nat \<Rightarrow> 'a list" where
  "gnu_insertion_sort cmp xs lastp = foldl (gnu_insertion_step cmp) xs [1..<lastp]"

definition gnu_unguarded_insertion_sort ::
  "('a \<Rightarrow> 'a \<Rightarrow> bool) \<Rightarrow> 'a list \<Rightarrow> nat \<Rightarrow> nat \<Rightarrow> 'a list" where
  "gnu_unguarded_insertion_sort cmp xs first lastp =
     foldl (\<lambda>ys i. gnu_unguarded_linear_insert cmp (ys ! i) ys i) xs [first..<lastp]"

definition gnu_final_insertion_sort :: "('a \<Rightarrow> 'a \<Rightarrow> bool) \<Rightarrow> 'a list \<Rightarrow> nat \<Rightarrow> 'a list" where
  "gnu_final_insertion_sort cmp xs lastp =
     (if lastp > 16
      then gnu_unguarded_insertion_sort cmp (gnu_insertion_sort cmp xs 16) 16 lastp
      else gnu_insertion_sort cmp xs lastp)"

definition gnu_move_median_to_first ::
  "('a \<Rightarrow> 'a \<Rightarrow> bool) \<Rightarrow> 'a list \<Rightarrow> nat \<Rightarrow> nat \<Rightarrow> nat \<Rightarrow> nat \<Rightarrow> 'a list" where
  "gnu_move_median_to_first cmp xs result a b c =
     (if cmp (xs ! a) (xs ! b)
      then (if cmp (xs ! b) (xs ! c) then iter_swap xs result b
            else if cmp (xs ! a) (xs ! c) then iter_swap xs result c
            else iter_swap xs result a)
      else if cmp (xs ! a) (xs ! c) then iter_swap xs result a
      else if cmp (xs ! b) (xs ! c) then iter_swap xs result c
      else iter_swap xs result b)"

function scan_up :: "('a \<Rightarrow> 'a \<Rightarrow> bool) \<Rightarrow> 'a list \<Rightarrow> nat \<Rightarrow> nat \<Rightarrow> nat" where
  "scan_up cmp xs pivot first =
     (if first < length xs \<and> cmp (xs ! first) (xs ! pivot) then scan_up cmp xs pivot (Suc first)
      else first)"
  by pat_completeness auto
termination
  by (relation "measure (\<lambda>(cmp, xs, pivot, first). length xs - first)") auto

fun scan_down :: "('a \<Rightarrow> 'a \<Rightarrow> bool) \<Rightarrow> 'a list \<Rightarrow> nat \<Rightarrow> nat \<Rightarrow> nat" where
  "scan_down cmp xs pivot 0 = 0"
| "scan_down cmp xs pivot (Suc lastp) =
     (if cmp (xs ! pivot) (xs ! Suc lastp) then scan_down cmp xs pivot lastp else Suc lastp)"

function gnu_unguarded_partition ::
  "('a \<Rightarrow> 'a \<Rightarrow> bool) \<Rightarrow> 'a list \<Rightarrow> nat \<Rightarrow> nat \<Rightarrow> nat \<Rightarrow> 'a list \<times> nat" where
  "gnu_unguarded_partition cmp xs first lastp pivot =
     (let firstq = scan_up cmp xs pivot first;
          lastq = scan_down cmp xs pivot (lastp - 1)
      in if \<not> firstq < lastq then (xs, firstq)
         else gnu_unguarded_partition cmp (iter_swap xs firstq lastq) (Suc firstq) lastq pivot)"
  by pat_completeness auto
termination
proof (relation "measure (\<lambda>(cmp, xs, first, lastp, pivot). lastp)")
  show "wf (measure (\<lambda>(cmp, xs, first, lastp, pivot). lastp))" by simp
next
  fix cmp :: "'a \<Rightarrow> 'a \<Rightarrow> bool" and xs first lastp pivot firstq lastq
  assume "firstq = scan_up cmp xs pivot first" "lastq = scan_down cmp xs pivot (lastp - 1)"
    "\<not> \<not> firstq < lastq"
  moreover have "scan_down cmp xs pivot l \<le> l" for l
    by (induction l) auto
  ultimately have "lastq \<le> lastp - 1" "0 < lastq" by auto
  then show "((cmp, iter_swap xs firstq lastq, Suc firstq, lastq, pivot), cmp, xs, first, lastp, pivot)
      \<in> measure (\<lambda>(cmp, xs, first, lastp, pivot). lastp)"
    by simp
qed

definition gnu_unguarded_partition_pivot ::
  "('a \<Rightarrow> 'a \<Rightarrow> bool) \<Rightarrow> 'a list \<Rightarrow> nat \<Rightarrow> nat \<Rightarrow> 'a list \<times> nat" where
  "gnu_unguarded_partition_pivot cmp xs first lastp =
     (let mid = first + (lastp - first) div 2;
          xs1 = gnu_move_median_to_first cmp xs first (first + 1) mid (lastp - 1)
      in gnu_unguarded_partition cmp xs1 (first + 1) lastp first)"

fun gnu_introsort_loop ::
  "('a list \<Rightarrow> nat \<Rightarrow> nat \<Rightarrow> 'a list) \<Rightarrow> ('a \<Rightarrow> 'a \<Rightarrow> bool) \<Rightarrow> 'a list \<Rightarrow> nat \<Rightarrow> nat \<Rightarrow> nat \<Rightarrow> 'a list" where
  "gnu_introsort_loop partial_sort cmp xs first lastp 0 =
     (if lastp - first > 16 then partial_sort xs first lastp else xs)"
| "gnu_introsort_loop partial_sort cmp xs first lastp (Suc depth_limit) =
     (if lastp - first > 16
      then (case gnu_unguarded_partition_pivot cmp xs first lastp of
              (xs1, cutp) \<Rightarrow>
                gnu_introsort_loop partial_sort cmp
                  (gnu_introsort_loop partial_sort cmp xs1 cutp lastp depth_limit)
                  first cutp depth_limit)
      else xs)"

fun gnu_lg :: "nat \<Rightarrow> nat" where
  "gnu_lg n = (if n < 2 then 0 else Suc (gnu_lg (n div 2)))"

declare gnu_lg.simps [simp del]

definition gnu_sort ::
  "('a list \<Rightarrow> nat \<Rightarrow> nat \<Rightarrow> 'a list) \<Rightarrow> ('a \<Rightarrow> 'a \<Rightarrow> bool) \<Rightarrow> 'a list \<Rightarrow> 'a list" where
  "gnu_sort partial_sort cmp xs =
     (if xs = [] then xs
      else gnu_final_insertion_sort cmp
             (gnu_introsort_loop partial_sort cmp xs 0 (length xs) (gnu_lg (length xs) * 2))
             (length xs))"

text \<open>A catalog of seventeen foods that all have weight 1 and 5 calories.\<close>

definition shelf :: heap where
  "shelf = map (\<lambda>c. \<lparr>description = [c], weight = 1, foodCalories = 5\<rparr>) ''abcdefghijklmnopq''"

section \<open>Basic facts\<close>

lemma FoodVector_wf_weight:
  "FoodVector_wf h foods \<Longrightarrow> p \<in> set foods \<Longrightarrow> 0 < weight (h ! p)"
  by (simp add: FoodVector_wf_def list_all_iff FoodItem_assert_def)

lemma FoodVector_wf_valid: "FoodVector_wf h foods \<Longrightarrow> p \<in> set foods \<Longrightarrow> p < length h"
  by (simp add: FoodVector_wf_def list_all_iff)

lemma sum_food_vector_Nil: "sum_food_vector h [] = (0, 0)"
  by (simp add: sum_food_vector_def)

lemma sum_food_vector_snoc:
  "sum_food_vector h (S @ [p]) =
     (fst (sum_food_vector h S) + weight (h ! p), snd (sum_food_vector h S) + foodCalories (h ! p))"
  by (simp add: sum_food_vector_def split_beta)

lemma sum_food_vector_sum_list:
  "sum_food_vector h S =
     (sum_list (map (\<lambda>p. weight (h ! p)) S), sum_list (map (\<lambda>p. foodCalories (h ! p)) S))"
  by (induction S rule: rev_induct) (simp_all add: sum_food_vector_Nil sum_food_vector_snoc)

lemma push_back_all: "foldl (\<lambda>best food. best @ [food]) acc S = acc @ S"
  by (induction S arbitrary: acc) simp_all

lemma int_of_size_small:
  assumes "n < 2 ^ 31"
  shows "int_of_size n = int n"
proof -
  have "take_bit 32 n = n"
    using assms by (simp add: take_bit_nat_eq_self)
  then have "sint (word_of_nat n :: 32 word) = signed_take_bit 31 (int n)"
    by (simp add: sint_uint take_bit_of_nat unsigned_of_nat)
  also have "\<dots> = int n"
    using assms by (simp add: signed_take_bit_int_eq_self_iff)
  finally show ?thesis by (simp add: int_of_size_def)
qed

lemma subset_upto_Suc:
  "subset_upto foods b (Suc k) =
     (if bit b k then subset_upto foods b k @ [foods ! k] else subset_upto foods b k)"
  by (simp add: subset_upto_def)

lemma inner_loop:
  assumes "CandidateFoodVector s = []" "candTotalWeight s = 0" "candTotalCalories s = 0"
  shows "foldl (inner_body h foods W (int b)) s [0..<k] =
     \<lparr>BestFoodVector = fst (foldl (record_best h W) (BestFoodVector s, bestTotalCalries s)
                  (map (\<lambda>i. subset_upto foods b (Suc i)) [0..<k])),
      CandidateFoodVector = subset_upto foods b k,
      bestTotalCalries = snd (foldl (record_best h W) (BestFoodVector s, bestTotalCalries s)
                  (map (\<lambda>i. subset_upto foods b (Suc i)) [0..<k])),
      candTotalWeight = fst (sum_food_vector h (subset_upto foods b k)),
      candTotalCalories = snd (sum_food_vector h (subset_upto foods b k))\<rparr>"
  (is "?run k = ?abs k")
proof (induction k)
  case 0
  show ?case using assms by (simp add: subset_upto_def sum_food_vector_Nil)
next
  case (Suc k)
  define t where "t = foldl (record_best h W) (BestFoodVector s, bestTotalCalries s)
                  (map (\<lambda>i. subset_upto foods b (Suc i)) [0..<k])"
  define S where "S = subset_upto foods b k"
  have bit_eq: "(drop_bit k (int b) AND 1 = 1) = bit b k"
    by (simp add: bit_iff_and_drop_bit_eq_1 [symmetric] bit_of_nat_iff_bit)
  have t': "foldl (record_best h W) (BestFoodVector s, bestTotalCalries s)
                  (map (\<lambda>i. subset_upto foods b (Suc i)) [0..<Suc k]) =
            record_best h W t (subset_upto foods b (Suc k))"
    by (simp add: t_def)
  have S': "subset_upto foods b (Suc k) = (if bit b k then S @ [foods ! k] else S)"
    by (simp add: S_def subset_upto_Suc)
  have "?run (Suc k) = inner_body h foods W (int b) (?run k) k"
    by simp
  also have "\<dots> = inner_body h foods W (int b) (?abs k) k"
    by (simp only: Suc)
  also have "\<dots> = ?abs (Suc k)"
    unfolding t' unfolding S' t_def [symmetric] S_def [symmetric]
    by (simp add: inner_body_def Let_def bit_eq record_best_def sum_food_vector_snoc
        push_back_all)
  finally show ?case .
qed

lemma record_best_idem: "record_best h W (record_best h W t S) S = record_best h W t S"
  by (simp add: record_best_def)

lemma record_best_mono: "snd t \<le> snd (record_best h W t S)"
  by (simp add: record_best_def)

lemma record_best_covered:
  "\<not> (fst (sum_food_vector h S) \<le> W \<and> snd (sum_food_vector h S) > snd t) \<Longrightarrow>
   record_best h W t S = t"
  by (auto simp: record_best_def)

lemma subset_upto_take_bit:
  assumes "m \<le> n"
  shows "subset_upto foods (take_bit m b) n = subset_upto foods b m"
proof -
  have "filter (\<lambda>j. bit (take_bit m b) j) [0..<n] = filter (\<lambda>j. bit b j) [0..<m]"
    using assms
  proof (induction n)
    case 0
    then show ?case by simp
  next
    case (Suc n)
    show ?case
    proof (cases "m = Suc n")
      case True
      have "filter (\<lambda>j. bit (take_bit m b) j) [0..<m] = filter (\<lambda>j. bit b j) [0..<m]"
        by (rule filter_cong) (simp_all add: bit_take_bit_iff)
      with True show ?thesis by simp
    next
      case False
      with Suc.prems have "m \<le> n" by simp
      with Suc.IH show ?thesis by (simp add: bit_take_bit_iff)
    qed
  qed
  then show ?thesis by (simp add: subset_upto_def)
qed

lemma prefixes_collapse:
  assumes cov: "\<And>b'. b' < b \<Longrightarrow>
      \<not> (fst (sum_food_vector h (subset_upto foods b' n)) \<le> W \<and>
         snd (sum_food_vector h (subset_upto foods b' n)) > snd t)"
    and "k \<le> n"
  shows "foldl (record_best h W) t (map (\<lambda>i. subset_upto foods b (Suc i)) [0..<k]) =
     (if \<exists>i<k. b < 2 ^ Suc i then record_best h W t (subset_upto foods b n) else t)"
  using \<open>k \<le> n\<close>
proof (induction k)
  case 0
  show ?case by simp
next
  case (Suc k)
  then have IH: "foldl (record_best h W) t (map (\<lambda>i. subset_upto foods b (Suc i)) [0..<k]) =
     (if \<exists>i<k. b < 2 ^ Suc i then record_best h W t (subset_upto foods b n) else t)"
    and kn: "Suc k \<le> n" by simp_all
  have P: "subset_upto foods b (Suc k) = subset_upto foods (take_bit (Suc k) b) n"
    using kn by (simp add: subset_upto_take_bit)
  show ?case
  proof (cases "b < 2 ^ Suc k")
    case True
    then have "take_bit (Suc k) b = b" by (simp add: take_bit_nat_eq_self)
    with P have "subset_upto foods b (Suc k) = subset_upto foods b n" by simp
    moreover from True have "\<exists>i<Suc k. b < 2 ^ Suc i" by blast
    ultimately show ?thesis
      using IH by (simp add: record_best_idem del: upt_Suc add: upt_Suc_append)
  next
    case False
    have none: "\<not> (\<exists>i<Suc k. b < 2 ^ Suc i)"
    proof
      assume "\<exists>i<Suc k. b < 2 ^ Suc i"
      then obtain i where "i < Suc k" and "b < 2 ^ Suc i" by blast
      from \<open>i < Suc k\<close> have "(2::nat) ^ Suc i \<le> 2 ^ Suc k"
        by (intro power_increasing) simp_all
      with \<open>b < 2 ^ Suc i\<close> have "b < 2 ^ Suc k" by (rule less_le_trans)
      with False show False by blast
    qed
    then have none': "\<not> (\<exists>i<k. b < 2 ^ Suc i)" by auto
    have "take_bit (Suc k) b < 2 ^ Suc k" by (rule take_bit_nat_less_exp)
    with False have "take_bit (Suc k) b < b" by simp
    from cov [OF this] P have "record_best h W t (subset_upto foods b (Suc k)) = t"
      by (simp add: record_best_covered)
    moreover have "foldl (record_best h W) t (map (\<lambda>i. subset_upto foods b (Suc i)) [0..<k]) = t"
      by (simp only: IH if_not_P [OF none'])
    ultimately have "foldl (record_best h W) t
        (map (\<lambda>i. subset_upto foods b (Suc i)) [0..<Suc k]) = t"
      by simp
    then show ?thesis by (simp only: if_not_P [OF none])
  qed
qed


lemma covered_after:
  "C \<in> set Cs \<Longrightarrow>
   \<not> (fst (sum_food_vector h C) \<le> W \<and>
      snd (sum_food_vector h C) > snd (foldl (record_best h W) t Cs))"
proof (induction Cs rule: rev_induct)
  case Nil
  then show ?case by simp
next
  case (snoc x xs)
  show ?case
  proof (cases "C = x")
    case True
    then show ?thesis by (simp add: record_best_def)
  next
    case False
    with snoc.prems have "C \<in> set xs" by simp
    from snoc.IH [OF this] record_best_mono [of "foldl (record_best h W) t xs" h W x]
    show ?thesis by auto
  qed
qed

lemma double_to_int_small:
  assumes "n < 31"
  shows "double_to_int (2 ^ n) = Inr (2 ^ n)"
proof -
  have "(2::int) ^ n < 2 ^ 31"
    using assms by (intro power_strict_increasing) simp_all
  moreover have "- (2 ^ 31) \<le> (2::int) ^ n"
    by (rule order_trans [of _ 0]) simp_all
  ultimately show ?thesis
    by (simp only: double_to_int_def Let_def floor_numeral_power zero_le_power
        zero_le_numeral if_True simp_thms)
qed

lemma double_to_int_large:
  assumes "31 \<le> n"
  shows "double_to_int (2 ^ n) = Inl Undefined_double_to_int"
proof -
  have "(2::int) ^ 31 \<le> 2 ^ n"
    using assms by (intro power_increasing) simp_all
  then have "\<not> (2::int) ^ n < 2 ^ 31" by (simp only: not_less)
  then show ?thesis
    by (simp only: double_to_int_def Let_def floor_numeral_power zero_le_power
        zero_le_numeral if_True if_False simp_thms)
qed

lemma outer_loop:
  assumes n: "length foods = n" "0 < n" "n < 31" and m: "m \<le> 2 ^ n"
  shows "(let s = foldl (outer_body h foods W)
                \<lparr>BestFoodVector = [], CandidateFoodVector = foods, bestTotalCalries = 0,
                 candTotalWeight = 0, candTotalCalories = 0\<rparr> (map int [0..<m])
          in (BestFoodVector s, bestTotalCalries s)) =
         foldl (record_best h W) ([], 0) (map (\<lambda>b. subset_upto foods b n) [0..<m])"
  (is "?impl m = ?spec m")
  using m
proof (induction m)
  case 0
  show ?case by simp
next
  case (Suc m)
  then have IH: "?impl m = ?spec m" and m: "m < 2 ^ n" by simp_all
  define s where "s = foldl (outer_body h foods W)
                \<lparr>BestFoodVector = [], CandidateFoodVector = foods, bestTotalCalries = 0,
                 candTotalWeight = 0, candTotalCalories = 0\<rparr> (map int [0..<m])"
  from IH have abs: "(BestFoodVector s, bestTotalCalries s) = ?spec m"
    by (simp add: s_def Let_def)
  have size: "nat (int_of_size (length foods)) = n"
    using n by (simp add: int_of_size_small)
  have cov: "\<not> (fst (sum_food_vector h (subset_upto foods b' n)) \<le> W \<and>
         snd (sum_food_vector h (subset_upto foods b' n)) > snd (BestFoodVector s, bestTotalCalries s))"
    if "b' < m" for b'
    unfolding abs using that by (intro covered_after) simp
  have last: "\<exists>i<n. m < 2 ^ Suc i"
  proof -
    from n obtain i where "n = Suc i" by (cases n) simp_all
    with m show ?thesis by auto
  qed
  have "(let s' = outer_body h foods W s (int m) in (BestFoodVector s', bestTotalCalries s')) =
        foldl (record_best h W) (BestFoodVector s, bestTotalCalries s)
          (map (\<lambda>i. subset_upto foods m (Suc i)) [0..<n])"
    by (simp add: outer_body_def size inner_loop Let_def)
  also have "\<dots> = record_best h W (BestFoodVector s, bestTotalCalries s) (subset_upto foods m n)"
    using prefixes_collapse [of m h foods n W "(BestFoodVector s, bestTotalCalries s)" n, OF cov]
      last by simp
  also have "\<dots> = ?spec (Suc m)"
    by (simp add: abs)
  finally show ?case
    by (simp add: s_def Let_def)
qed

lemma exhaustive_search:
  assumes "length foods < 31"
  shows "exhaustive_max_calories h foods W =
     Inr (fst (foldl (record_best h W) ([], 0)
            (map (\<lambda>b. subset_upto foods b (length foods)) [0..<2 ^ length foods])))"
proof (cases "length foods = 0")
  case True
  then show ?thesis
    by (simp add: exhaustive_max_calories_def double_to_int_def outer_body_def
        int_of_size_def record_best_def sum_food_vector_Nil subset_upto_def)
next
  case False
  then have pos: "0 < length foods" by simp
  have nat2: "nat ((2::int) ^ length foods) = 2 ^ length foods"
    by (simp add: nat_power_eq)
  from outer_loop [OF refl pos assms order_refl, of h W]
  have "BestFoodVector (foldl (outer_body h foods W)
            \<lparr>BestFoodVector = [], CandidateFoodVector = foods, bestTotalCalries = 0,
             candTotalWeight = 0, candTotalCalories = 0\<rparr> (map int [0..<2 ^ length foods])) =
        fst (foldl (record_best h W) ([], 0)
            (map (\<lambda>b. subset_upto foods b (length foods)) [0..<2 ^ length foods]))"
    by (simp add: Let_def) (metis fst_conv)
  then show ?thesis
    by (simp only: exhaustive_max_calories_def double_to_int_small [OF assms] nat2 sum.case)
qed

lemma exhaustive_overflow:
  assumes "31 \<le> length foods"
  shows "exhaustive_max_calories h foods W = Inl Undefined_double_to_int"
  by (simp only: exhaustive_max_calories_def double_to_int_large [OF assms] sum.case)

section \<open>Facts about the greedy loop and about subsets\<close>

lemma picked_simps [simp]:
  "picked [] fl = []"
  "picked xs [] = []"
  "picked (x # xs) (True # fl) = x # picked xs fl"
  "picked (x # xs) (False # fl) = picked xs fl"
  by (simp_all add: picked_def)

lemma length_greedy_flags [simp]: "length (greedy_flags W c ps) = length ps"
  by (induction ps arbitrary: c) simp_all

lemma greedy_loop:
  "foldl (greedy_body W) s ps =
     \<lparr>store = store s @ map item (picked ps (greedy_flags W (capacity s) ps)),
      capacity = capacity s +
        sum_list (map (\<lambda>p. weight (item p)) (picked ps (greedy_flags W (capacity s) ps))),
      GreedyFoodVector = GreedyFoodVector s @
        [length (store s) ..<
         length (store s) + length (picked ps (greedy_flags W (capacity s) ps))]\<rparr>"
proof (induction ps arbitrary: s)
  case Nil
  show ?case by simp
next
  case (Cons p ps)
  show ?case
  proof (cases "capacity s + weight (item p) \<le> W")
    case True
    then have "greedy_body W s p =
        \<lparr>store = store s @ [item p], capacity = capacity s + weight (item p),
         GreedyFoodVector = GreedyFoodVector s @ [length (store s)]\<rparr>"
      by (simp add: greedy_body_def)
    moreover have "[n..<Suc (n + k)] = n # [Suc n..<Suc (n + k)]" for n k :: nat
      by (rule upt_conv_Cons) simp
    ultimately show ?thesis
      using True by (simp add: Cons.IH add.assoc del: upt_Suc)
  next
    case False
    then have "greedy_body W s p = s"
      by (simp add: greedy_body_def)
    with False show ?thesis
      by (simp add: Cons.IH)
  qed
qed

lemma deref_fresh: "deref (h @ xs) [length h ..< length h + length xs] = xs"
  by (rule nth_equalityI) (simp_all add: deref_def nth_append)

lemma sum_food_vector_deref:
  "sum_food_vector h S = (sum_list (map weight (deref h S)), sum_list (map foodCalories (deref h S)))"
  by (simp add: sum_food_vector_sum_list deref_def comp_def)

lemma greedy_feasible:
  "c \<le> W \<Longrightarrow> c + sum_list (map (\<lambda>p. weight (item p)) (picked ps (greedy_flags W c ps))) \<le> W"
  by (induction ps arbitrary: c) (simp_all add: add.assoc [symmetric])

lemma subseq_picked: "subseq (picked xs fl) xs"
proof (induction xs arbitrary: fl)
  case Nil
  show ?case by simp
next
  case (Cons x xs)
  show ?case
  proof (cases fl)
    case Nil
    then show ?thesis by simp
  next
    case (Cons f fl')
    with Cons.IH [of fl'] show ?thesis by (cases f) (auto intro: list_emb_Cons)
  qed
qed



lemma greedy_flags_nth:
  "i < length ps \<Longrightarrow>
   greedy_flags W c ps ! i \<longleftrightarrow>
     c + sum_list (map (\<lambda>p. weight (item p)) (picked (take i ps) (take i (greedy_flags W c ps))))
       + weight (item (ps ! i)) \<le> W"
proof (induction ps arbitrary: c i)
  case Nil
  then show ?case by simp
next
  case (Cons p ps)
  show ?case
  proof (cases i)
    case 0
    then show ?thesis by simp
  next
    case (Suc j)
    with Cons.prems have j: "j < length ps" by simp
    show ?thesis
    proof (cases "c + weight (item p) \<le> W")
      case True
      with Cons.IH [OF j, of "c + weight (item p)"] show ?thesis
        by (simp add: Suc add.assoc)
    next
      case False
      with Cons.IH [OF j, of c] show ?thesis
        by (simp add: Suc)
    qed
  qed
qed

lemma insertion_sort_contract: "std_sort_contract insertion_sort"
  unfolding std_sort_contract_def insertion_sort_def sortPercentage_def
proof (intro allI conjI)
  fix v :: "percentItem list"
  show "mset (sort_key (\<lambda>p. - percent p) v) = mset v" by simp
  have "sorted (map (\<lambda>p. - percent p) (sort_key (\<lambda>p. - percent p) v))"
    by (rule sorted_sort_key)
  then show "sorted_wrt (\<lambda>a b. \<not> percent a < percent b) (sort_key (\<lambda>p. - percent p) v)"
    by (simp add: sorted_map not_less)
qed

lemma subseq_mset: "subseq xs ys \<Longrightarrow> mset xs \<subseteq># mset ys"
proof (induction rule: list_emb.induct)
  case (list_emb_Nil ys)
  show ?case by simp
next
  case (list_emb_Cons xs ys y)
  then have "mset xs \<subseteq># mset ys" by simp
  moreover have "mset ys \<subseteq># add_mset y (mset ys)"
    by (metis (no_types) add_mset_add_single mset_subset_eq_add_left)
  ultimately have "mset xs \<subseteq># add_mset y (mset ys)"
    by (rule subset_mset.order_trans)
  then show ?case by simp
next
  case (list_emb_Cons2 x y xs ys)
  then show ?case by simp
qed

lemma subset_upto_subseq_take:
  "k \<le> length foods \<Longrightarrow> subseq (subset_upto foods b k) (take k foods)"
proof (induction k)
  case 0
  show ?case by (simp add: subset_upto_def)
next
  case (Suc k)
  then have IH: "subseq (subset_upto foods b k) (take k foods)" and k: "k < length foods"
    by simp_all
  have tk: "take (Suc k) foods = take k foods @ [foods ! k]"
    using k by (rule take_Suc_conv_app_nth)
  show ?case
  proof (cases "bit b k")
    case True
    have "subseq (subset_upto foods b k @ [foods ! k]) (take k foods @ [foods ! k])"
      using IH by (rule list_emb_append_mono) simp
    with True show ?thesis by (simp only: subset_upto_Suc tk if_True)
  next
    case False
    have "subseq (subset_upto foods b k @ []) (take k foods @ [foods ! k])"
      using IH by (rule list_emb_append_mono) simp
    with False show ?thesis by (simp only: subset_upto_Suc tk if_False append_Nil2)
  qed
qed

lemma subset_upto_subseq: "subseq (subset_upto foods b (length foods)) foods"
  using subset_upto_subseq_take [of "length foods" foods b] by simp

lemma subset_upto_append:
  "k \<le> length fs \<Longrightarrow> subset_upto (fs @ xs) b k = subset_upto fs b k"
  by (simp add: subset_upto_def nth_append)

lemma subset_upto_small:
  assumes "b < 2 ^ k" "k \<le> n"
  shows "subset_upto foods b n = subset_upto foods b k"
proof -
  from assms(1) have "take_bit k b = b" by (simp add: take_bit_nat_eq_self)
  with subset_upto_take_bit [OF assms(2), of foods b] show ?thesis by simp
qed

lemma subseq_is_subset:
  "subseq S foods \<Longrightarrow> \<exists>b<2 ^ length foods. S = subset_upto foods b (length foods)"
proof (induction foods arbitrary: S rule: rev_induct)
  case Nil
  then show ?case by (simp add: subset_upto_def)
next
  case (snoc x fs)
  let ?k = "length fs"
  from snoc.prems obtain s1 s2 where S: "S = s1 @ s2" and s1: "subseq s1 fs" and s2: "subseq s2 [x]"
    by (auto simp: subseq_append_iff)
  from snoc.IH [OF s1] obtain b where b: "b < 2 ^ ?k" and s1b: "s1 = subset_upto fs b ?k"
    by blast
  have low: "subset_upto (fs @ [x]) b ?k = s1"
    by (simp add: subset_upto_append s1b)
  show ?case
  proof (cases s2)
    case Nil
    from b have "\<not> bit b ?k" by (simp add: bit_iff_odd)
    with low Nil S have "S = subset_upto (fs @ [x]) b (length (fs @ [x]))"
      by (simp add: subset_upto_Suc)
    moreover from b have "b < 2 ^ length (fs @ [x])" by simp
    ultimately show ?thesis by blast
  next
    case (Cons y ys)
    with s2 have s2x: "s2 = [x]"
      by (cases ys) (auto simp: subseq_Cons2_iff split: if_splits)
    let ?b = "b + 2 ^ ?k"
    have "take_bit ?k ?b = take_bit ?k b"
      by (simp add: take_bit_eq_mod)
    then have "subset_upto (fs @ [x]) ?b ?k = subset_upto (fs @ [x]) b ?k"
      using subset_upto_take_bit [of ?k ?k "fs @ [x]" ?b] subset_upto_take_bit [of ?k ?k "fs @ [x]" b]
      by simp
    moreover from b have "bit ?b ?k" by (simp add: bit_iff_odd)
    ultimately have "S = subset_upto (fs @ [x]) ?b (length (fs @ [x]))"
      using low S s2x by (simp add: subset_upto_Suc)
    moreover from b have "?b < 2 ^ length (fs @ [x])" by simp
    ultimately show ?thesis by blast
  qed
qed

lemma greedy_result:
  "greedy_max_calories std_sort h foods W =
     (h @ map item (greedy_picked std_sort h foods W),
      [length h ..< length h + length (greedy_picked std_sort h foods W)])"
  by (simp add: greedy_max_calories_def Let_def greedy_loop greedy_picked_def scanned_def)

lemma greedy_deref:
  "deref (fst (greedy_max_calories std_sort h foods W)) (snd (greedy_max_calories std_sort h foods W))
     = map item (greedy_picked std_sort h foods W)"
  using deref_fresh [of h "map item (greedy_picked std_sort h foods W)"]
  by (simp add: greedy_result)

lemma picked_map: "picked (map f xs) fl = map f (picked xs fl)"
proof (induction xs arbitrary: fl)
  case Nil
  show ?case by simp
next
  case (Cons x xs)
  show ?case
  proof (cases fl)
    case Nil
    then show ?thesis by simp
  next
    case (Cons b fl')
    with Cons.IH [of fl'] show ?thesis by (cases b) simp_all
  qed
qed

lemma picked_none:
  "\<forall>p\<in>set ps. \<not> c + weight (item p) \<le> W \<Longrightarrow> picked ps (greedy_flags W c ps) = []"
  by (induction ps) simp_all

lemma map_item_percentItemVector_of: "map item (percentItemVector_of h foods) = deref h foods"
  by (simp add: percentItemVector_of_def deref_def comp_def)

lemma std_sort_mset: "std_sort_contract std_sort \<Longrightarrow> mset (std_sort v) = mset v"
  by (simp add: std_sort_contract_def)

lemma std_sort_set: "std_sort_contract std_sort \<Longrightarrow> set (std_sort v) = set v"
  by (metis std_sort_mset set_mset_mset)

lemma std_sort_length: "std_sort_contract std_sort \<Longrightarrow> length (std_sort v) = length v"
  by (metis std_sort_mset size_mset)

lemma std_sort_sorted:
  "std_sort_contract std_sort \<Longrightarrow> sorted_wrt (\<lambda>a b. percent a \<ge> percent b) (std_sort v)"
  by (simp add: std_sort_contract_def sortPercentage_def not_less)

lemma std_sort_percents:
  assumes "std_sort_contract s1" "std_sort_contract s2"
  shows "map percent (s1 v) = map percent (s2 v)"
proof -
  have key: "map (\<lambda>p. - percent p) (s v) = sort (map (\<lambda>p. - percent p) v)"
    if "std_sort_contract s" for s
  proof (rule properties_for_sort [symmetric])
    show "mset (map (\<lambda>p. - percent p) (s v)) = mset (map (\<lambda>p. - percent p) v)"
      using std_sort_mset [OF that, of v] by simp
    show "sorted (map (\<lambda>p. - percent p) (s v))"
      using std_sort_sorted [OF that, of v] by (simp add: sorted_map)
  qed
  have "map (\<lambda>p. - percent p) (s1 v) = map (\<lambda>p. - percent p) (s2 v)"
    by (simp only: key [OF assms(1)] key [OF assms(2)])
  then have "map uminus (map (\<lambda>p. - percent p) (s1 v)) = map uminus (map (\<lambda>p. - percent p) (s2 v))"
    by (rule arg_cong)
  then show ?thesis by (simp add: comp_def)
qed

lemma std_sort_unique:
  assumes "std_sort_contract s1" "std_sort_contract s2" "distinct (map percent v)"
  shows "s1 v = s2 v"
proof -
  from assms(3) have "inj_on percent (set v)" by (simp add: distinct_map)
  then have "inj_on percent (set (s1 v) \<union> set (s2 v))"
    by (simp add: std_sort_set assms)
  with std_sort_percents [OF assms(1,2), of v] show ?thesis
    by (simp add: inj_on_map_eq_map)
qed

lemma greedy_cong:
  "s1 (percentItemVector_of h foods) = s2 (percentItemVector_of h foods) \<Longrightarrow>
   greedy_max_calories s1 h foods W = greedy_max_calories s2 h foods W"
  by (simp add: greedy_max_calories_def)

lemma greedy_feasible_result:
  assumes "0 \<le> W"
  shows "fst (sum_food_vector (fst (greedy_max_calories std_sort h foods W))
               (snd (greedy_max_calories std_sort h foods W))) \<le> W"
  using greedy_feasible [OF assms, of "scanned std_sort h foods"]
  by (simp add: sum_food_vector_deref greedy_deref greedy_picked_def comp_def)

lemma scanned_all:
  assumes "std_sort_contract std_sort" "length foods < 2 ^ 31"
  shows "scanned std_sort h foods = std_sort (percentItemVector_of h foods)"
proof -
  have "length (std_sort (percentItemVector_of h foods)) = length foods"
    using assms(1) by (simp add: std_sort_length percentItemVector_of_def)
  with assms(2) show ?thesis
    by (simp add: scanned_def int_of_size_small)
qed

lemma subseq_scanned: "subseq (scanned std_sort h foods) (std_sort (percentItemVector_of h foods))"
  unfolding scanned_def
  by (metis append_take_drop_id list_emb_prefix subseq_order.order_refl)

lemma greedy_picked_subseq:
  "subseq (greedy_picked std_sort h foods W) (std_sort (percentItemVector_of h foods))"
  unfolding greedy_picked_def
  by (rule subseq_order.order_trans [OF subseq_picked subseq_scanned])

lemma greedy_picked_mset:
  assumes "std_sort_contract std_sort"
  shows "mset (map item (greedy_picked std_sort h foods W)) \<subseteq># mset (deref h foods)"
proof -
  have "subseq (map item (greedy_picked std_sort h foods W))
          (map item (std_sort (percentItemVector_of h foods)))"
    by (rule subseq_map [OF greedy_picked_subseq])
  then have "mset (map item (greedy_picked std_sort h foods W))
          \<subseteq># mset (map item (std_sort (percentItemVector_of h foods)))"
    by (rule subseq_mset)
  also have "mset (map item (std_sort (percentItemVector_of h foods))) =
      image_mset item (mset (std_sort (percentItemVector_of h foods)))"
    by simp
  also have "\<dots> = image_mset item (mset (percentItemVector_of h foods))"
    by (simp only: std_sort_mset [OF assms])
  also have "\<dots> = mset (deref h foods)"
    by (simp flip: map_item_percentItemVector_of)
  finally show ?thesis .
qed

lemma greedy_empty:
  assumes c: "std_sort_contract std_sort" and wf: "FoodVector_wf h foods"
    and deg: "foods = [] \<or> W \<le> 0"
  shows "greedy_max_calories std_sort h foods W = (h, [])"
proof -
  have "\<not> 0 + weight (item p) \<le> W" if "p \<in> set (scanned std_sort h foods)" for p
  proof -
    from that have "p \<in> set (std_sort (percentItemVector_of h foods))"
      using subseq_scanned [of std_sort h foods] by (auto dest: list_emb_set)
    then have "p \<in> set (percentItemVector_of h foods)"
      by (simp add: std_sort_set [OF c])
    then obtain food where "food \<in> set foods" "item p = h ! food"
      by (auto simp: percentItemVector_of_def)
    with wf have "0 < weight (item p)" by (simp add: FoodVector_wf_weight)
    moreover from \<open>food \<in> set foods\<close> deg have "W \<le> 0" by auto
    ultimately show ?thesis by simp
  qed
  then have "greedy_picked std_sort h foods W = []"
    unfolding greedy_picked_def by (intro picked_none) blast
  then show ?thesis by (simp add: greedy_result)
qed

section \<open>What the exhaustive search records\<close>

lemma first_max:
  fixes f :: "nat \<Rightarrow> FoodVector" and h :: heap and W :: real
  defines "t \<equiv> \<lambda>m. foldl (record_best h W) ([], 0) (map f [0..<m])"
  shows "(fst (t m) = [] \<and> snd (t m) = 0 \<and>
            (\<forall>b<m. fst (sum_food_vector h (f b)) \<le> W \<longrightarrow> snd (sum_food_vector h (f b)) \<le> 0)) \<or>
         (\<exists>b<m. fst (t m) = f b \<and> snd (t m) = snd (sum_food_vector h (f b)) \<and>
            fst (sum_food_vector h (f b)) \<le> W \<and> 0 < snd (sum_food_vector h (f b)) \<and>
            (\<forall>b'<m. fst (sum_food_vector h (f b')) \<le> W \<longrightarrow>
               snd (sum_food_vector h (f b')) \<le> snd (sum_food_vector h (f b))) \<and>
            (\<forall>b'<b. fst (sum_food_vector h (f b')) \<le> W \<longrightarrow>
               snd (sum_food_vector h (f b')) < snd (sum_food_vector h (f b))))"
  (is "?none m \<or> ?some m")
proof (induction m)
  case 0
  show ?case by (simp add: t_def)
next
  case (Suc m)
  have step: "t (Suc m) = record_best h W (t m) (f m)"
    by (simp add: t_def)
  let ?w = "fst (sum_food_vector h (f m))" and ?c = "snd (sum_food_vector h (f m))"
  show ?case
  proof (cases "?w \<le> W \<and> ?c > snd (t m)")
    case True
    then have new: "t (Suc m) = (f m, ?c)"
      by (simp add: step record_best_def)
    from Suc.IH have old: "0 \<le> snd (t m)"
      and bound: "\<forall>b<m. fst (sum_food_vector h (f b)) \<le> W \<longrightarrow>
          snd (sum_food_vector h (f b)) \<le> snd (t m)"
      by auto
    from True old have pos: "0 < ?c" by simp
    have "\<forall>b'<Suc m. fst (sum_food_vector h (f b')) \<le> W \<longrightarrow>
               snd (sum_food_vector h (f b')) \<le> ?c"
      using bound True by (auto simp: less_Suc_eq)
    moreover have "\<forall>b'<m. fst (sum_food_vector h (f b')) \<le> W \<longrightarrow>
               snd (sum_food_vector h (f b')) < ?c"
      using bound True by fastforce
    ultimately have "?some (Suc m)"
      using True pos new by (intro exI [of _ m]) simp
    then show ?thesis ..
  next
    case False
    then have same: "t (Suc m) = t m"
      by (simp add: step record_best_covered)
    from Suc.IH show ?thesis
    proof
      assume n: "?none m"
      with False have "?none (Suc m)"
        unfolding same by (auto simp: less_Suc_eq)
      then show ?thesis ..
    next
      assume "?some m"
      then obtain b where b: "b < m" "fst (t m) = f b" "snd (t m) = snd (sum_food_vector h (f b))"
        "fst (sum_food_vector h (f b)) \<le> W" "0 < snd (sum_food_vector h (f b))"
        "\<forall>b'<m. fst (sum_food_vector h (f b')) \<le> W \<longrightarrow>
               snd (sum_food_vector h (f b')) \<le> snd (sum_food_vector h (f b))"
        "\<forall>b'<b. fst (sum_food_vector h (f b')) \<le> W \<longrightarrow>
               snd (sum_food_vector h (f b')) < snd (sum_food_vector h (f b))"
        by blast
      from False b(3) have "?w \<le> W \<longrightarrow> ?c \<le> snd (sum_food_vector h (f b))" by auto
      with b(6) have "\<forall>b'<Suc m. fst (sum_food_vector h (f b')) \<le> W \<longrightarrow>
               snd (sum_food_vector h (f b')) \<le> snd (sum_food_vector h (f b))"
        by (auto simp: less_Suc_eq)
      with b have "?some (Suc m)"
        unfolding same by (intro exI [of _ b]) simp
      then show ?thesis ..
    qed
  qed
qed


lemma exhaustive_first_max:
  assumes "length foods < 31"
  defines "n \<equiv> length foods"
  shows "\<exists>B. exhaustive_max_calories h foods W = Inr B \<and>
     ((B = [] \<and>
        (\<forall>b<2 ^ n. fst (sum_food_vector h (subset_upto foods b n)) \<le> W \<longrightarrow>
           snd (sum_food_vector h (subset_upto foods b n)) \<le> 0)) \<or>
      (\<exists>b<2 ^ n. B = subset_upto foods b n \<and>
         fst (sum_food_vector h (subset_upto foods b n)) \<le> W \<and>
         0 < snd (sum_food_vector h (subset_upto foods b n)) \<and>
         (\<forall>b'<2 ^ n. fst (sum_food_vector h (subset_upto foods b' n)) \<le> W \<longrightarrow>
            snd (sum_food_vector h (subset_upto foods b' n))
              \<le> snd (sum_food_vector h (subset_upto foods b n))) \<and>
         (\<forall>b'<b. fst (sum_food_vector h (subset_upto foods b' n)) \<le> W \<longrightarrow>
            snd (sum_food_vector h (subset_upto foods b' n))
              < snd (sum_food_vector h (subset_upto foods b n)))))"
proof -
  have "exhaustive_max_calories h foods W =
      Inr (fst (foldl (record_best h W) ([], 0) (map (\<lambda>b. subset_upto foods b n) [0..<2 ^ n])))"
    unfolding n_def using assms(1) by (rule exhaustive_search)
  moreover note first_max [of h W "\<lambda>b. subset_upto foods b n" "2 ^ n"]
  ultimately show ?thesis by (elim disjE) (simp_all, blast)
qed


lemma exhaustive_feasible:
  assumes "length foods < 31" "0 \<le> W"
  shows "\<exists>B. exhaustive_max_calories h foods W = Inr B \<and> fst (sum_food_vector h B) \<le> W"
  using exhaustive_first_max [OF assms(1), of h W] assms(2)
  by (auto simp: sum_food_vector_Nil)

lemma exhaustive_subseq:
  assumes "length foods < 31"
  shows "\<exists>B. exhaustive_max_calories h foods W = Inr B \<and> subseq B foods"
  using exhaustive_first_max [OF assms, of h W] subset_upto_subseq
  by auto

lemma positive_weight:
  assumes "S \<noteq> []" "\<forall>p\<in>set S. 0 < weight (h ! p)"
  shows "0 < fst (sum_food_vector h S)"
proof -
  from assms(1) obtain a S' where S: "S = a # S'" by (cases S) simp_all
  with assms(2) have "0 < weight (h ! a)" by simp
  moreover have "0 \<le> sum_list (map (\<lambda>p. weight (h ! p)) S')"
    using assms(2) S by (intro sum_list_nonneg) (auto intro: less_imp_le)
  ultimately have "0 < sum_list (map (\<lambda>p. weight (h ! p)) S)"
    using S by simp
  then show ?thesis by (simp add: sum_food_vector_sum_list)
qed

lemma exhaustive_empty:
  assumes wf: "FoodVector_wf h foods" and n: "length foods < 31" and deg: "foods = [] \<or> W \<le> 0"
  shows "exhaustive_max_calories h foods W = Inr []"
proof -
  let ?n = "length foods"
  have no: "\<not> (fst (sum_food_vector h (subset_upto foods b ?n)) \<le> W \<and>
               0 < snd (sum_food_vector h (subset_upto foods b ?n)))" for b
  proof
    let ?S = "subset_upto foods b ?n"
    assume a: "fst (sum_food_vector h ?S) \<le> W \<and> 0 < snd (sum_food_vector h ?S)"
    then have ne: "?S \<noteq> []" by (auto simp: sum_food_vector_Nil)
    have sub: "subseq ?S foods" by (rule subset_upto_subseq)
    from deg show False
    proof
      assume "foods = []"
      with ne show False by (simp add: subset_upto_def)
    next
      assume W: "W \<le> 0"
      from sub have "set ?S \<subseteq> set foods" by (auto dest: list_emb_set)
      with wf have "\<forall>p\<in>set ?S. 0 < weight (h ! p)"
        by (auto dest: FoodVector_wf_weight)
      with ne have "0 < fst (sum_food_vector h ?S)" by (rule positive_weight)
      with a W show False by simp
    qed
  qed
  from exhaustive_first_max [OF n, of h W] no show ?thesis by auto
qed

lemma exhaustive_spec_search_eq:
  "exhaustive_spec_search h foods W m =
     foldl (record_best h W) ([], 0) (map (\<lambda>b. subset_upto foods b (length foods)) [0..<m])"
proof (induction m)
  case 0
  show ?case by simp
next
  case (Suc m)
  have "[foods ! j. j \<leftarrow> xs, bit m j] = map (\<lambda>j. foods ! j) (filter (\<lambda>j. bit m j) xs)"
    for xs :: "nat list"
    by (induction xs) simp_all
  then have "[foods ! j. j \<leftarrow> [0..<length foods], bit m j] = subset_upto foods m (length foods)"
    by (simp add: subset_upto_def)
  then show ?case
    by (simp add: Suc record_best_def sum_food_vector_sum_list Let_def split: prod.splits)
qed

section \<open>The solvers on the example catalog\<close>

lemma pantry_wf: "FoodVector_wf pantry [0, 1, 2]"
  by (simp add: FoodVector_wf_def FoodItem_assert_def pantry_def)

lemma greedy_pantry:
  "greedy_max_calories insertion_sort pantry [0, 1, 2] 10 = (pantry @ [pantry ! 2, pantry ! 0], [3, 4])"
  by code_simp

lemma greedy_pantry_negative:
  "greedy_max_calories insertion_sort pantry [0, 1, 2] (- 1) = (pantry, [])"
  by code_simp

lemma exhaustive_pantry_negative:
  "exhaustive_max_calories pantry [0, 1, 2] (- 1) = Inr []"
  by code_simp

lemma pantry_02_wf: "FoodVector_wf pantry [0, 2]"
  by (simp add: FoodVector_wf_def FoodItem_assert_def pantry_def)

lemma greedy_pantry_02:
  "greedy_max_calories insertion_sort pantry [0, 2] 10 = (pantry @ [pantry ! 2, pantry ! 0], [3, 4])"
  by code_simp

lemma greedy_pantry_02_any:
  assumes "std_sort_contract std_sort"
  shows "greedy_max_calories std_sort pantry [0, 2] 10 = (pantry @ [pantry ! 2, pantry ! 0], [3, 4])"
proof -
  have "distinct (map percent (percentItemVector_of pantry [0, 2]))"
    by (simp add: percentItemVector_of_def pantry_def)
  with assms insertion_sort_contract
  have "std_sort (percentItemVector_of pantry [0, 2]) = insertion_sort (percentItemVector_of pantry [0, 2])"
    by (rule std_sort_unique)
  then have "greedy_max_calories std_sort pantry [0, 2] 10 = greedy_max_calories insertion_sort pantry [0, 2] 10"
    by (rule greedy_cong)
  then show ?thesis by (simp only: greedy_pantry_02)
qed

lemma greedy_pantry_01_gnu:
  "greedy_max_calories (gnu_sort partial_sort sortPercentage) pantry [0, 1] 10 =
     (pantry @ [pantry ! 0], [3])"
  by code_simp

lemma shelf_ratios: "map percent (percentItemVector_of shelf [0..<17]) = replicate 17 5"
  by code_simp

lemma shelf_ranking:
  "map item (gnu_sort partial_sort sortPercentage (percentItemVector_of shelf [0..<17])) =
     map (\<lambda>i. shelf ! i) [8, 16, 15, 14, 13, 12, 11, 10, 9, 0, 7, 6, 5, 4, 3, 2, 1]"
  by code_simp

lemma shelf_greedy:
  "(case greedy_max_calories (gnu_sort partial_sort sortPercentage) shelf [0..<17] 1 of
      (h', G) \<Rightarrow> deref h' G = [\<lparr>description = ''i'', weight = 1, foodCalories = 5\<rparr>])"
  by code_simp

lemma shelf_first: "shelf ! 0 = \<lparr>description = ''a'', weight = 1, foodCalories = 5\<rparr>"
  by (simp add: shelf_def)

lemma exhaustive_pantry: "exhaustive_max_calories pantry [0, 1, 2] 10 = Inr [0, 2]"
  by code_simp

section \<open>The size of the catalog and the counter of the exhaustive search\<close>

text \<open>
  Claim C3. The specification has the exhaustive solver reject every catalog whose size is at
  or above a safety bound, with the error CapacityExceededInputSize, so that the counter of
  \<open>2 ^ n\<close> subsets never overflows. The function has no such check. On a catalog of 31
  foods, a size below the 64 that its own comment names, \<^verbatim>\<open>pow(2, 31)\<close> is not an
  \<^verbatim>\<open>int\<close>, and the conversion that initialises \<^verbatim>\<open>bitSize\<close> is undefined: the call is not
  rejected, it goes wrong.
\<close>

theorem exhaustive_31_foods_undefined:
  "exhaustive_max_calories [\<lparr>description = ''a'', weight = 1, foodCalories = 1\<rparr>]
     (replicate 31 0) 1 = Inl Undefined_double_to_int"
  by (rule exhaustive_overflow) simp

section \<open>Exactness of the exhaustive search\<close>

text \<open>
  Claim C2. For every catalog of fewer than 31 foods (the sizes for which \<open>2 ^ n\<close> fits the
  \<^verbatim>\<open>int\<close> counter) and every capacity, \<open>exhaustive_max_calories\<close> returns a selection whose
  total calories are at least the total calories of every subset of the catalog, taken as
  a subsequence of the vector, whose total weight is at most the capacity.
\<close>

theorem exhaustive_exact:
  assumes "length foods < 31"
  shows "\<exists>B. exhaustive_max_calories h foods W = Inr B \<and>
     (\<forall>S. subseq S foods \<and> fst (sum_food_vector h S) \<le> W \<longrightarrow>
        snd (sum_food_vector h S) \<le> snd (sum_food_vector h B))"
proof -
  from exhaustive_first_max [OF assms, of h W] obtain B where
    B: "exhaustive_max_calories h foods W = Inr B" and
    max: "\<forall>b<2 ^ length foods. fst (sum_food_vector h (subset_upto foods b (length foods))) \<le> W \<longrightarrow>
           snd (sum_food_vector h (subset_upto foods b (length foods))) \<le> snd (sum_food_vector h B)"
    by (auto simp: sum_food_vector_Nil)
  have "snd (sum_food_vector h S) \<le> snd (sum_food_vector h B)"
    if "subseq S foods" "fst (sum_food_vector h S) \<le> W" for S
  proof -
    from subseq_is_subset [OF that(1)] obtain b where
      "b < 2 ^ length foods" "S = subset_upto foods b (length foods)" by blast
    with max that(2) show ?thesis by blast
  qed
  with B show ?thesis by blast
qed

theorem exhaustive_exact_witness:
  "length [0, 1, 2 :: nat] < 31 \<and>
   (\<exists>B. exhaustive_max_calories pantry [0, 1, 2] 10 = Inr B \<and>
     (\<forall>S. subseq S [0, 1, 2] \<and> fst (sum_food_vector pantry S) \<le> 10 \<longrightarrow>
        snd (sum_food_vector pantry S) \<le> snd (sum_food_vector pantry B)))"
  using exhaustive_exact [of "[0, 1, 2]" pantry 10] by simp

section \<open>Which optimum the exhaustive search returns\<close>

text \<open>
  Claim C9. For a catalog of fewer than 31 foods: when some feasible subset has strictly
  positive total calories, the selection returned is the subset of a counter value \<open>b\<close>
  that is feasible, whose calories no feasible subset exceeds, and whose calories every
  feasible subset of a smaller counter value stays strictly below, that is, the first
  subset of maximal calories in ascending counter order; when no feasible subset has
  strictly positive calories, the selection is empty.
\<close>

theorem exhaustive_first_maximum:
  assumes "length foods < 31"
  shows "\<exists>B. exhaustive_max_calories h foods W = Inr B \<and>
     (if \<exists>b<2 ^ length foods.
           fst (sum_food_vector h (subset_upto foods b (length foods))) \<le> W \<and>
           0 < snd (sum_food_vector h (subset_upto foods b (length foods)))
      then \<exists>b<2 ^ length foods. B = subset_upto foods b (length foods) \<and>
             fst (sum_food_vector h B) \<le> W \<and>
             (\<forall>b'<2 ^ length foods.
                fst (sum_food_vector h (subset_upto foods b' (length foods))) \<le> W \<longrightarrow>
                snd (sum_food_vector h (subset_upto foods b' (length foods)))
                  \<le> snd (sum_food_vector h B)) \<and>
             (\<forall>b'<b.
                fst (sum_food_vector h (subset_upto foods b' (length foods))) \<le> W \<longrightarrow>
                snd (sum_food_vector h (subset_upto foods b' (length foods)))
                  < snd (sum_food_vector h B))
      else B = [])"
  using exhaustive_first_max [OF assms, of h W]
  by (elim exE conjE disjE) (force, force)

theorem exhaustive_first_maximum_witness:
  "length [0, 1, 2 :: nat] < 31 \<and>
   (\<exists>B. exhaustive_max_calories pantry [0, 1, 2] 10 = Inr B \<and>
     (if \<exists>b<2 ^ length [0, 1, 2 :: nat].
           fst (sum_food_vector pantry (subset_upto [0, 1, 2] b (length [0, 1, 2 :: nat]))) \<le> 10 \<and>
           0 < snd (sum_food_vector pantry (subset_upto [0, 1, 2] b (length [0, 1, 2 :: nat])))
      then \<exists>b<2 ^ length [0, 1, 2 :: nat].
             B = subset_upto [0, 1, 2] b (length [0, 1, 2 :: nat]) \<and>
             fst (sum_food_vector pantry B) \<le> 10 \<and>
             (\<forall>b'<2 ^ length [0, 1, 2 :: nat].
                fst (sum_food_vector pantry (subset_upto [0, 1, 2] b' (length [0, 1, 2 :: nat]))) \<le> 10 \<longrightarrow>
                snd (sum_food_vector pantry (subset_upto [0, 1, 2] b' (length [0, 1, 2 :: nat])))
                  \<le> snd (sum_food_vector pantry B)) \<and>
             (\<forall>b'<b.
                fst (sum_food_vector pantry (subset_upto [0, 1, 2] b' (length [0, 1, 2 :: nat]))) \<le> 10 \<longrightarrow>
                snd (sum_food_vector pantry (subset_upto [0, 1, 2] b' (length [0, 1, 2 :: nat])))
                  < snd (sum_food_vector pantry B))
      else B = []))"
proof -
  have "length [0, 1, 2 :: nat] < 31" by simp
  then show ?thesis
    using exhaustive_first_maximum [of "[0, 1, 2]" pantry 10] by blast
qed

section \<open>The prefix checks of the inner loop\<close>

text \<open>
  Claim C10. \<open>exhaustive_max_calories\<close> compares the running candidate with the best after
  every index of the inner loop, so it examines the prefixes of each subset as well; the
  specification examines each subset once, when it is complete. For every catalog of fewer
  than 31 foods and every capacity both return the same selection.
\<close>

theorem exhaustive_refines_spec:
  assumes "length foods < 31"
  shows "exhaustive_max_calories h foods W = Inr (exhaustive_select_spec h foods W)"
  by (simp only: exhaustive_search [OF assms] exhaustive_select_spec_def exhaustive_spec_search_eq)

theorem exhaustive_refines_spec_witness:
  "length [0, 1, 2 :: nat] < 31 \<and>
   exhaustive_max_calories pantry [0, 1, 2] 10 = Inr (exhaustive_select_spec pantry [0, 1, 2] 10)"
  using exhaustive_refines_spec [of "[0, 1, 2]" pantry 10] by simp

section \<open>Feasibility\<close>

text \<open>
  Claim C1, as the code has it. For every capacity that is not negative: the selection of
  \<open>greedy_max_calories\<close> has a total weight of at most the capacity, for every catalog; and
  for every catalog of fewer than 31 foods \<open>exhaustive_max_calories\<close> returns a selection
  whose total weight is at most the capacity. The totals are those of \<open>sum_food_vector\<close>.
\<close>

theorem feasible_for_nonnegative_capacity:
  assumes "0 \<le> W"
  shows "(case greedy_max_calories std_sort h foods W of
            (h', G) \<Rightarrow> fst (sum_food_vector h' G) \<le> W) \<and>
         (length foods < 31 \<longrightarrow>
            (\<exists>B. exhaustive_max_calories h foods W = Inr B \<and> fst (sum_food_vector h B) \<le> W))"
  using greedy_feasible_result [OF assms, of std_sort h foods] exhaustive_feasible [of foods W h] assms
  by (simp add: case_prod_beta)

theorem feasible_for_nonnegative_capacity_witness:
  "(0::real) \<le> 10 \<and>
   (case greedy_max_calories insertion_sort pantry [0, 1, 2] 10 of
      (h', G) \<Rightarrow> fst (sum_food_vector h' G) \<le> 10) \<and>
   length [0, 1, 2 :: nat] < 31 \<and>
   (\<exists>B. exhaustive_max_calories pantry [0, 1, 2] 10 = Inr B \<and> fst (sum_food_vector pantry B) \<le> 10)"
  using feasible_for_nonnegative_capacity [of 10 insertion_sort pantry "[0, 1, 2]"] by simp

theorem negative_capacity_counterexample:
  "\<not> (case greedy_max_calories insertion_sort pantry [0, 1, 2] (- 1) of
        (h', G) \<Rightarrow> fst (sum_food_vector h' G) \<le> - 1) \<and>
   exhaustive_max_calories pantry [0, 1, 2] (- 1) = Inr [] \<and>
   \<not> fst (sum_food_vector pantry []) \<le> - 1"
  unfolding greedy_pantry_negative exhaustive_pantry_negative
  by (simp add: sum_food_vector_Nil)

section \<open>The greedy scan\<close>

text \<open>
  Claim C4. For a catalog of well-formed foods with fewer than \<open>2 ^ 31\<close> entries (the sizes
  the \<^verbatim>\<open>int\<close> index of the loop covers) and a \<^verbatim>\<open>std::sort\<close> that keeps its promise, there
  are a ranking and one decision per ranked item such that: the ranking is a permutation of
  the catalog's foods in descending order of calories per weight; item \<open>i\<close> is included
  if and only if the weight of the items included before it, plus its own weight, is at
  most the capacity; and the selection returned consists of the included items, each once,
  in the order of the ranking.
\<close>

theorem greedy_scans_ranking:
  assumes "std_sort_contract std_sort" and "FoodVector_wf h foods" and "length foods < 2 ^ 31"
  shows "\<exists>ranking included.
     mset ranking = mset (deref h foods) \<and>
     sorted_wrt (\<lambda>x y. foodCalories x / weight x \<ge> foodCalories y / weight y) ranking \<and>
     length included = length ranking \<and>
     (\<forall>i<length ranking. included ! i \<longleftrightarrow>
        sum_list (map weight (picked (take i ranking) (take i included))) + weight (ranking ! i) \<le> W) \<and>
     (case greedy_max_calories std_sort h foods W of
        (h', G) \<Rightarrow> deref h' G = picked ranking included)"
proof -
  define v where "v = std_sort (percentItemVector_of h foods)"
  define ranking where "ranking = map item v"
  define included where "included = greedy_flags W 0 v"
  have all: "scanned std_sort h foods = v"
    unfolding v_def using assms(1,3) by (rule scanned_all)
  have perm: "mset ranking = mset (deref h foods)"
  proof -
    have "mset ranking = image_mset item (mset v)" by (simp add: ranking_def)
    also have "\<dots> = image_mset item (mset (percentItemVector_of h foods))"
      unfolding v_def by (simp only: std_sort_mset [OF assms(1)])
    also have "\<dots> = mset (deref h foods)"
      by (simp flip: map_item_percentItemVector_of)
    finally show ?thesis .
  qed
  have ratio: "percent p = foodCalories (item p) / weight (item p)" if "p \<in> set v" for p
  proof -
    from that have "p \<in> set (percentItemVector_of h foods)"
      by (simp add: v_def std_sort_set [OF assms(1)])
    then show ?thesis by (auto simp: percentItemVector_of_def)
  qed
  have "sorted_wrt (\<lambda>a b. percent a \<ge> percent b) v"
    unfolding v_def using assms(1) by (rule std_sort_sorted)
  then have "sorted_wrt (\<lambda>a b. foodCalories (item a) / weight (item a)
                         \<ge> foodCalories (item b) / weight (item b)) v"
    by (rule sorted_wrt_mono_rel [rotated]) (simp add: ratio)
  then have sorted: "sorted_wrt (\<lambda>x y. foodCalories x / weight x \<ge> foodCalories y / weight y) ranking"
    by (simp add: ranking_def sorted_wrt_map)
  have len: "length included = length ranking"
    by (simp add: included_def ranking_def)
  have rule: "\<forall>i<length ranking. included ! i \<longleftrightarrow>
        sum_list (map weight (picked (take i ranking) (take i included))) + weight (ranking ! i) \<le> W"
  proof (intro allI impI)
    fix i
    assume "i < length ranking"
    then have i: "i < length v" by (simp add: ranking_def)
    have "picked (take i ranking) (take i included) = map item (picked (take i v) (take i included))"
      by (simp add: ranking_def take_map picked_map)
    with greedy_flags_nth [OF i, of W 0] i
    show "included ! i \<longleftrightarrow>
        sum_list (map weight (picked (take i ranking) (take i included))) + weight (ranking ! i) \<le> W"
      by (simp add: included_def ranking_def comp_def)
  qed
  have "deref (fst (greedy_max_calories std_sort h foods W)) (snd (greedy_max_calories std_sort h foods W))
      = picked ranking included"
    by (simp add: greedy_deref greedy_picked_def all included_def ranking_def picked_map)
  then have res: "case greedy_max_calories std_sort h foods W of
        (h', G) \<Rightarrow> deref h' G = picked ranking included"
    by (simp only: case_prod_beta)
  from perm sorted len rule res show ?thesis
    by (intro exI [of _ ranking] exI [of _ included] conjI)
qed

theorem greedy_scans_ranking_witness:
  "std_sort_contract insertion_sort \<and> FoodVector_wf pantry [0, 1, 2] \<and>
   length [0, 1, 2 :: nat] < 2 ^ 31 \<and>
   (\<exists>ranking included.
     mset ranking = mset (deref pantry [0, 1, 2]) \<and>
     sorted_wrt (\<lambda>x y. foodCalories x / weight x \<ge> foodCalories y / weight y) ranking \<and>
     length included = length ranking \<and>
     (\<forall>i<length ranking. included ! i \<longleftrightarrow>
        sum_list (map weight (picked (take i ranking) (take i included))) + weight (ranking ! i) \<le> 10) \<and>
     (case greedy_max_calories insertion_sort pantry [0, 1, 2] 10 of
        (h', G) \<Rightarrow> deref h' G = picked ranking included))"
proof -
  have "length [0, 1, 2 :: nat] < 2 ^ 31" by simp
  with insertion_sort_contract pantry_wf
    greedy_scans_ranking [OF insertion_sort_contract pantry_wf this, of 10]
  show ?thesis by (intro conjI)
qed

section \<open>The order of the selection\<close>

text \<open>
  Claim C6, as the code has it. The selection of \<open>exhaustive_max_calories\<close>, for a catalog
  of fewer than 31 foods, is a subsequence of the catalog vector: the chosen pointers in
  their catalog order. The selection of \<open>greedy_max_calories\<close> is a subsequence of the
  ranking (the catalog sorted by descending ratio), not of the catalog, and its foods are
  foods of the catalog, none more often than the catalog has it.
\<close>

theorem selection_order:
  assumes "std_sort_contract std_sort"
  shows "(case greedy_max_calories std_sort h foods W of
            (h', G) \<Rightarrow>
              subseq (deref h' G) (map item (std_sort (percentItemVector_of h foods))) \<and>
              mset (deref h' G) \<subseteq># mset (deref h foods)) \<and>
         (length foods < 31 \<longrightarrow>
            (\<exists>B. exhaustive_max_calories h foods W = Inr B \<and> subseq B foods))"
proof -
  have a: "subseq (map item (greedy_picked std_sort h foods W))
          (map item (std_sort (percentItemVector_of h foods)))"
    by (rule subseq_map [OF greedy_picked_subseq])
  have b: "mset (map item (greedy_picked std_sort h foods W)) \<subseteq># mset (deref h foods)"
    using assms by (rule greedy_picked_mset)
  have g: "case greedy_max_calories std_sort h foods W of
            (h', G) \<Rightarrow>
              subseq (deref h' G) (map item (std_sort (percentItemVector_of h foods))) \<and>
              mset (deref h' G) \<subseteq># mset (deref h foods)"
    unfolding case_prod_beta greedy_deref using a b by (rule conjI)
  have e: "length foods < 31 \<longrightarrow>
            (\<exists>B. exhaustive_max_calories h foods W = Inr B \<and> subseq B foods)"
    by (rule impI) (rule exhaustive_subseq)
  from g e show ?thesis by (rule conjI)
qed

theorem selection_order_witness:
  "std_sort_contract insertion_sort \<and>
   (case greedy_max_calories insertion_sort pantry [0, 1, 2] 10 of
      (h', G) \<Rightarrow>
        subseq (deref h' G) (map item (insertion_sort (percentItemVector_of pantry [0, 1, 2]))) \<and>
        mset (deref h' G) \<subseteq># mset (deref pantry [0, 1, 2])) \<and>
   length [0, 1, 2 :: nat] < 31 \<and>
   (\<exists>B. exhaustive_max_calories pantry [0, 1, 2] 10 = Inr B \<and> subseq B [0, 1, 2])"
  (is "?C \<and> ?G \<and> ?L \<and> ?E")
proof -
  note t = selection_order [OF insertion_sort_contract, of pantry "[0, 1, 2]" 10]
  have l: ?L by simp
  from t have g: ?G by (rule conjunct1)
  from t l have e: ?E by (rule conjunct2 [THEN mp])
  from insertion_sort_contract g l e show ?thesis by (intro conjI)
qed

theorem greedy_order_counterexample:
  "\<not> (\<exists>std_sort. std_sort_contract std_sort \<and>
        (case greedy_max_calories std_sort pantry [0, 2] 10 of
           (h', G) \<Rightarrow> subseq (deref h' G) (deref pantry [0, 2])))"
proof
  assume "\<exists>std_sort. std_sort_contract std_sort \<and>
        (case greedy_max_calories std_sort pantry [0, 2] 10 of
           (h', G) \<Rightarrow> subseq (deref h' G) (deref pantry [0, 2]))"
  then obtain std_sort where cs: "std_sort_contract std_sort \<and>
        (case greedy_max_calories std_sort pantry [0, 2] 10 of
           (h', G) \<Rightarrow> subseq (deref h' G) (deref pantry [0, 2]))" ..
  from cs have c: "std_sort_contract std_sort" by (rule conjunct1)
  from cs have s: "case greedy_max_calories std_sort pantry [0, 2] 10 of
           (h', G) \<Rightarrow> subseq (deref h' G) (deref pantry [0, 2])" by (rule conjunct2)
  from s have "subseq (deref (pantry @ [pantry ! 2, pantry ! 0]) [3, 4]) (deref pantry [0, 2])"
    by (simp only: greedy_pantry_02_any [OF c] prod.case)
  then show False
    by (simp add: deref_def pantry_def subseq_Cons2_iff)
qed

section \<open>Where the selected items come from\<close>

text \<open>
  Claim C7, as the code has it. \<open>greedy_max_calories\<close> returns pointers to objects it
  allocates itself: the store grows by the copies, the selection is the run of the new
  positions (pairwise different, none of them a pointer of the catalog), and the copies
  are foods of the catalog, with the same description, weight and calories, none more
  often than the catalog has it. \<open>exhaustive_max_calories\<close>, for a catalog of fewer than
  31 foods, returns pointers of the catalog itself, none more often than the catalog has it.
\<close>

theorem selection_membership:
  assumes "std_sort_contract std_sort" and "FoodVector_wf h foods"
  shows "(case greedy_max_calories std_sort h foods W of
            (h', G) \<Rightarrow>
              (\<exists>new. h' = h @ new \<and> G = [length h ..< length h + length new] \<and>
                 deref h' G = new \<and> mset new \<subseteq># mset (deref h foods)) \<and>
              set G \<inter> set foods = {}) \<and>
         (length foods < 31 \<longrightarrow>
            (\<exists>B. exhaustive_max_calories h foods W = Inr B \<and> mset B \<subseteq># mset foods))"
proof -
  let ?new = "map item (greedy_picked std_sort h foods W)"
  let ?G = "[length h ..< length h + length ?new]"
  have res: "greedy_max_calories std_sort h foods W = (h @ ?new, ?G)"
    by (simp add: greedy_result)
  have d: "deref (h @ ?new) ?G = ?new"
    by (rule deref_fresh)
  have m: "mset ?new \<subseteq># mset (deref h foods)"
    using assms(1) by (rule greedy_picked_mset)
  have fresh: "set ?G \<inter> set foods = {}"
    using FoodVector_wf_valid [OF assms(2)] by fastforce
  have ex: "\<exists>new. h @ ?new = h @ new \<and> ?G = [length h ..< length h + length new] \<and>
                 deref (h @ ?new) ?G = new \<and> mset new \<subseteq># mset (deref h foods)"
    using d m by (intro exI [of _ ?new] conjI refl)
  from ex fresh have g: "case greedy_max_calories std_sort h foods W of
            (h', G) \<Rightarrow>
              (\<exists>new. h' = h @ new \<and> G = [length h ..< length h + length new] \<and>
                 deref h' G = new \<and> mset new \<subseteq># mset (deref h foods)) \<and>
              set G \<inter> set foods = {}"
    unfolding res prod.case by (rule conjI)
  have e: "length foods < 31 \<longrightarrow>
            (\<exists>B. exhaustive_max_calories h foods W = Inr B \<and> mset B \<subseteq># mset foods)"
  proof
    assume "length foods < 31"
    then have "\<exists>B. exhaustive_max_calories h foods W = Inr B \<and> subseq B foods"
      by (rule exhaustive_subseq)
    then obtain B where "exhaustive_max_calories h foods W = Inr B" "subseq B foods"
      by (elim exE conjE)
    then show "\<exists>B. exhaustive_max_calories h foods W = Inr B \<and> mset B \<subseteq># mset foods"
      by (intro exI [of _ B] conjI subseq_mset)
  qed
  from g e show ?thesis by (rule conjI)
qed

theorem selection_membership_witness:
  "std_sort_contract insertion_sort \<and> FoodVector_wf pantry [0, 1, 2] \<and>
   (case greedy_max_calories insertion_sort pantry [0, 1, 2] 10 of
            (h', G) \<Rightarrow>
              (\<exists>new. h' = pantry @ new \<and> G = [length pantry ..< length pantry + length new] \<and>
                 deref h' G = new \<and> mset new \<subseteq># mset (deref pantry [0, 1, 2])) \<and>
              set G \<inter> set [0, 1, 2] = {}) \<and>
   length [0, 1, 2 :: nat] < 31 \<and>
   (\<exists>B. exhaustive_max_calories pantry [0, 1, 2] 10 = Inr B \<and> mset B \<subseteq># mset [0, 1, 2])"
  (is "?C \<and> ?W \<and> ?G \<and> ?L \<and> ?E")
proof -
  note t = selection_membership [OF insertion_sort_contract pantry_wf, of 10]
  have l: ?L by simp
  from t have g: ?G by (rule conjunct1)
  from t l have e: ?E by (rule conjunct2 [THEN mp])
  from insertion_sort_contract pantry_wf g l e show ?thesis by (intro conjI)
qed

theorem greedy_copies_counterexample:
  "\<not> (\<exists>std_sort. std_sort_contract std_sort \<and>
        (case greedy_max_calories std_sort pantry [0, 2] 10 of
           (h', G) \<Rightarrow> set G \<subseteq> set [0, 2]))"
proof
  assume "\<exists>std_sort. std_sort_contract std_sort \<and>
        (case greedy_max_calories std_sort pantry [0, 2] 10 of
           (h', G) \<Rightarrow> set G \<subseteq> set [0, 2])"
  then obtain std_sort where cs: "std_sort_contract std_sort \<and>
        (case greedy_max_calories std_sort pantry [0, 2] 10 of
           (h', G) \<Rightarrow> set G \<subseteq> set [0, 2])" ..
  from cs have c: "std_sort_contract std_sort" by (rule conjunct1)
  from cs have "case greedy_max_calories std_sort pantry [0, 2] 10 of
           (h', G) \<Rightarrow> set G \<subseteq> set [0, 2]" by (rule conjunct2)
  then have "set [3, 4 :: nat] \<subseteq> set [0, 2]"
    by (simp only: greedy_pantry_02_any [OF c] prod.case)
  then show False by simp
qed

section \<open>Degenerate inputs\<close>

text \<open>
  Claim C8. For a catalog of well-formed foods that is empty, or with a capacity that is
  zero or negative, \<open>greedy_max_calories\<close> returns the empty selection and allocates
  nothing, the totals of the empty selection are both zero, and \<open>exhaustive_max_calories\<close>,
  for a catalog of fewer than 31 foods, returns the empty selection as well; neither
  fails.
\<close>

theorem degenerate_inputs:
  assumes "std_sort_contract std_sort" and "FoodVector_wf h foods" and "foods = [] \<or> W \<le> 0"
  shows "greedy_max_calories std_sort h foods W = (h, []) \<and>
         sum_food_vector h [] = (0, 0) \<and>
         (length foods < 31 \<longrightarrow> exhaustive_max_calories h foods W = Inr [])"
proof (intro conjI impI)
  show "greedy_max_calories std_sort h foods W = (h, [])"
    using assms by (rule greedy_empty)
  show "sum_food_vector h [] = (0, 0)"
    by (rule sum_food_vector_Nil)
  show "exhaustive_max_calories h foods W = Inr []" if "length foods < 31"
    using assms(2) that assms(3) by (rule exhaustive_empty)
qed

theorem degenerate_inputs_witness:
  "std_sort_contract insertion_sort \<and> FoodVector_wf pantry [0, 1, 2] \<and>
   ([0, 1, 2 :: nat] = [] \<or> (0::real) \<le> 0) \<and>
   greedy_max_calories insertion_sort pantry [0, 1, 2] 0 = (pantry, []) \<and>
   sum_food_vector pantry [] = (0, 0) \<and>
   length [0, 1, 2 :: nat] < 31 \<and>
   exhaustive_max_calories pantry [0, 1, 2] 0 = Inr []"
  (is "?C \<and> ?W \<and> ?D \<and> ?G \<and> ?S \<and> ?L \<and> ?E")
proof -
  have d: ?D by simp
  note t = degenerate_inputs [OF insertion_sort_contract pantry_wf d]
  have l: ?L by simp
  from t have g: ?G by (rule conjunct1)
  from t have s: ?S by (rule conjunct2 [THEN conjunct1])
  from t l have e: ?E by (rule conjunct2 [THEN conjunct2, THEN mp])
  from insertion_sort_contract pantry_wf d g s l e show ?thesis by (intro conjI)
qed

section \<open>The library's sort on short catalogs\<close>

text \<open>
  On a vector of at most 16 elements \<open>gnu_sort\<close> is the insertion sort of the library
  alone. Each of its steps puts the next element behind the elements before it that are
  not smaller in the order, so that elements of equal \<^verbatim>\<open>percent\<close> never pass each other.
\<close>

lemma gnu_linear_insert_split:
  "length P = k \<Longrightarrow>
   \<exists>P1 P2. P = P1 @ P2 \<and>
     gnu_unguarded_linear_insert cmp x (P @ j # R) k = P1 @ x # P2 @ R \<and>
     (\<forall>y\<in>set P2. cmp x y) \<and> (P1 \<noteq> [] \<longrightarrow> \<not> cmp x (last P1))"
proof (induction P arbitrary: k j R rule: rev_induct)
  case Nil
  then show ?case by simp
next
  case (snoc y P')
  then have k: "k = Suc (length P')" by simp
  have nth: "(P' @ [y] @ j # R) ! length P' = y" by (simp add: nth_append)
  show ?case
  proof (cases "cmp x y")
    case True
    have upd: "(P' @ [y] @ j # R)[Suc (length P') := y] = P' @ y # (y # R)"
      by (simp add: list_update_append)
    from snoc.IH [of "length P'" y "y # R"] obtain P1 P2 where
      s: "P' = P1 @ P2" and r: "gnu_unguarded_linear_insert cmp x (P' @ y # y # R) (length P') = P1 @ x # P2 @ y # R"
      and a: "\<forall>y\<in>set P2. cmp x y" and b: "P1 \<noteq> [] \<longrightarrow> \<not> cmp x (last P1)"
      by auto
    have "gnu_unguarded_linear_insert cmp x ((P' @ [y]) @ j # R) k = P1 @ x # (P2 @ [y]) @ R"
      using True nth upd r by (simp add: k)
    moreover have "P' @ [y] = P1 @ (P2 @ [y])" using s by simp
    moreover have "\<forall>z\<in>set (P2 @ [y]). cmp x z" using a True by simp
    ultimately show ?thesis using b by blast
  next
    case False
    have "gnu_unguarded_linear_insert cmp x ((P' @ [y]) @ j # R) k = (P' @ [y]) @ x # [] @ R"
      using False nth by (simp add: k list_update_append)
    moreover have "P' @ [y] = (P' @ [y]) @ []" by simp
    moreover have "(P' @ [y]) \<noteq> [] \<longrightarrow> \<not> cmp x (last (P' @ [y]))" using False by simp
    ultimately show ?thesis by (metis empty_iff list.set(1))
  qed
qed


lemma gnu_insertion_step_split:
  assumes ne: "P \<noteq> []" and sorted: "sorted_wrt (\<lambda>a b. percent a \<ge> percent b) P"
  shows "\<exists>P1 P2. P = P1 @ P2 \<and>
     gnu_insertion_step sortPercentage (P @ x # R) (length P) = P1 @ x # P2 @ R \<and>
     (\<forall>y\<in>set P2. percent x > percent y) \<and> (\<forall>y\<in>set P1. percent y \<ge> percent x)"
proof (cases "sortPercentage x (P ! 0)")
  case True
  from ne obtain p P' where P: "P = p # P'" by (cases P) simp_all
  from True P have px: "percent p < percent x" by (simp add: sortPercentage_def)
  have "\<forall>y\<in>set P. percent y < percent x"
    using sorted px unfolding P by auto
  moreover have "gnu_insertion_step sortPercentage (P @ x # R) (length P) = [] @ x # P @ R"
    using True ne by (simp add: gnu_insertion_step_def nth_append)
  ultimately show ?thesis by (intro exI [of _ "[]"] exI [of _ P]) simp
next
  case False
  from gnu_linear_insert_split [OF refl, where cmp = sortPercentage and x = x and P = P and j = x and R = R] obtain P1 P2 where
    s: "P = P1 @ P2"
    and r: "gnu_unguarded_linear_insert sortPercentage x (P @ x # R) (length P) = P1 @ x # P2 @ R"
    and a: "\<forall>y\<in>set P2. sortPercentage x y"
    and b: "P1 \<noteq> [] \<longrightarrow> \<not> sortPercentage x (last P1)"
    by blast
  have step: "gnu_insertion_step sortPercentage (P @ x # R) (length P) = P1 @ x # P2 @ R"
    using False ne r by (simp add: gnu_insertion_step_def nth_append)
  have "\<forall>y\<in>set P1. percent y \<ge> percent x"
  proof
    fix y assume y: "y \<in> set P1"
    then have P1: "P1 \<noteq> []" by auto
    with b have l: "percent (last P1) \<ge> percent x" by (simp add: sortPercentage_def)
    from sorted s have "sorted_wrt (\<lambda>a b. percent a \<ge> percent b) P1"
      by (simp add: sorted_wrt_append)
    then have "sorted_wrt (\<lambda>a b. percent a \<ge> percent b) (butlast P1 @ [last P1])"
      using P1 by simp
    then have "\<forall>z\<in>set (butlast P1). percent z \<ge> percent (last P1)"
      by (simp add: sorted_wrt_append)
    moreover from y P1 have "y \<in> set (butlast P1) \<or> y = last P1"
      by (metis append_butlast_last_id in_set_conv_decomp rotate1.simps(2) set_ConsD set_rotate1)
    ultimately have "percent y \<ge> percent (last P1)" by auto
    with l show "percent y \<ge> percent x" by simp
  qed
  with s step a show ?thesis by (auto simp: sortPercentage_def)
qed


lemma gnu_insertion_sort_invariant:
  assumes "k \<le> length xs" and "1 \<le> k"
  shows "length (gnu_insertion_sort sortPercentage xs k) = length xs \<and>
     drop k (gnu_insertion_sort sortPercentage xs k) = drop k xs \<and>
     sorted_wrt (\<lambda>a b. percent a \<ge> percent b) (take k (gnu_insertion_sort sortPercentage xs k)) \<and>
     mset (take k (gnu_insertion_sort sortPercentage xs k)) = mset (take k xs) \<and>
     (\<forall>r. filter (\<lambda>p. percent p = r) (take k (gnu_insertion_sort sortPercentage xs k)) =
          filter (\<lambda>p. percent p = r) (take k xs))"
  using assms(2,1)
proof (induction k rule: dec_induct)
  case base
  have "take 1 xs = [hd xs]" using assms(1,2) base by (cases xs) simp_all
  then show ?case by (simp add: gnu_insertion_sort_def)
next
  case (step k)
  define ys where "ys = gnu_insertion_sort sortPercentage xs k"
  from step have k: "k < length xs" "k \<le> length xs" by simp_all
  from step.IH [OF k(2)] have len: "length ys = length xs"
    and rest: "drop k ys = drop k xs"
    and sorted: "sorted_wrt (\<lambda>a b. percent a \<ge> percent b) (take k ys)"
    and perm: "mset (take k ys) = mset (take k xs)"
    and stable: "\<And>r. filter (\<lambda>p. percent p = r) (take k ys) = filter (\<lambda>p. percent p = r) (take k xs)"
    unfolding ys_def by simp_all
  define P where "P = take k ys"
  define x where "x = xs ! k"
  define R where "R = drop (Suc k) xs"
  have dk: "drop k xs = x # R"
    using k by (simp add: x_def R_def Cons_nth_drop_Suc)
  have ys: "ys = P @ x # R"
    unfolding P_def using rest dk by (metis append_take_drop_id)
  have lenP: "length P = k"
    using k len by (simp add: P_def)
  have neP: "P \<noteq> []"
    using lenP step.hyps(1) by auto
  have next_step: "gnu_insertion_sort sortPercentage xs (Suc k) = gnu_insertion_step sortPercentage ys k"
    using step.hyps(1) by (simp add: gnu_insertion_sort_def ys_def)
  have sortedP0: "sorted_wrt (\<lambda>a b. percent a \<ge> percent b) P"
    using sorted by (simp only: P_def)
  have "\<exists>P1 P2. P = P1 @ P2 \<and>
     gnu_insertion_step sortPercentage (P @ x # R) (length P) = P1 @ x # P2 @ R \<and>
     (\<forall>y\<in>set P2. percent x > percent y) \<and> (\<forall>y\<in>set P1. percent y \<ge> percent x)"
    using neP sortedP0 by (rule gnu_insertion_step_split)
  then obtain P1 P2 where
    s: "P = P1 @ P2"
    and r0: "gnu_insertion_step sortPercentage (P @ x # R) (length P) = P1 @ x # P2 @ R"
    and lo: "\<forall>y\<in>set P2. percent x > percent y"
    and hi: "\<forall>y\<in>set P1. percent y \<ge> percent x"
    by (elim exE conjE)
  have r: "gnu_insertion_step sortPercentage ys k = P1 @ x # P2 @ R"
    using r0 by (simp only: ys lenP)
  have l12: "length (P1 @ x # P2) = Suc k" using s lenP by simp
  have tk: "take (Suc k) (P1 @ x # P2 @ R) = P1 @ x # P2"
    using l12 by (metis append.assoc append_Cons append_eq_conv_conj)
  have dr: "drop (Suc k) (P1 @ x # P2 @ R) = R"
    using l12 by (metis append.assoc append_Cons append_eq_conv_conj)
  have txs: "take (Suc k) xs = take k xs @ [x]"
    using k by (simp add: x_def take_Suc_conv_app_nth)
  have sortedP: "sorted_wrt (\<lambda>a b. percent a \<ge> percent b) (P1 @ P2)"
    using sortedP0 by (simp only: s)
  have c1: "length (P1 @ x # P2 @ R) = length xs"
    using len ys s by simp
  have c2: "drop (Suc k) (P1 @ x # P2 @ R) = drop (Suc k) xs"
    using dr by (simp only: R_def [symmetric])
  have c3: "sorted_wrt (\<lambda>a b. percent a \<ge> percent b) (P1 @ x # P2)"
    using sortedP lo hi by (auto simp: sorted_wrt_append intro: less_imp_le)
  have perm0: "mset (P1 @ P2) = mset (take k xs)"
    using perm by (simp only: P_def [symmetric] s)
  have c4: "mset (P1 @ x # P2) = mset (take k xs @ [x])"
    using perm0 by simp
  have c5: "filter (\<lambda>p. percent p = r) (P1 @ x # P2) = filter (\<lambda>p. percent p = r) (take k xs @ [x])" for r
  proof -
    have "filter (\<lambda>p. percent p = r) (P1 @ P2) = filter (\<lambda>p. percent p = r) (take k xs)"
      using stable [of r] by (simp only: P_def [symmetric] s)
    then have "filter (\<lambda>p. percent p = r) (take k xs) = filter (\<lambda>p. percent p = r) P1 @ filter (\<lambda>p. percent p = r) P2"
      by simp
    moreover have "filter (\<lambda>p. percent p = r) P2 = []" if "percent x = r"
      using lo that by (auto simp: filter_empty_conv)
    ultimately show ?thesis by auto
  qed
  show ?case
    unfolding next_step r tk txs using c1 c2 c3 c4 c5 by (intro conjI allI)
qed


lemma gnu_introsort_loop_short:
  "lastp - first \<le> 16 \<Longrightarrow> gnu_introsort_loop partial_sort cmp xs first lastp depth_limit = xs"
  by (cases depth_limit) simp_all

lemma gnu_sort_short:
  assumes "length v \<le> 16"
  shows "gnu_sort partial_sort sortPercentage v = gnu_insertion_sort sortPercentage v (length v)"
proof (cases "v = []")
  case True
  then show ?thesis by (simp add: gnu_sort_def gnu_insertion_sort_def)
next
  case False
  with assms show ?thesis
    by (simp add: gnu_sort_def gnu_introsort_loop_short gnu_final_insertion_sort_def)
qed

lemma gnu_sort_short_stable:
  assumes "length v \<le> 16"
  shows "length (gnu_sort partial_sort sortPercentage v) = length v \<and>
     mset (gnu_sort partial_sort sortPercentage v) = mset v \<and>
     sorted_wrt (\<lambda>a b. percent a \<ge> percent b) (gnu_sort partial_sort sortPercentage v) \<and>
     (\<forall>r. filter (\<lambda>p. percent p = r) (gnu_sort partial_sort sortPercentage v) =
          filter (\<lambda>p. percent p = r) v)"
proof (cases "v = []")
  case True
  then show ?thesis by (simp add: gnu_sort_def)
next
  case False
  then have "1 \<le> length v" by (cases v) simp_all
  note inv = gnu_insertion_sort_invariant [OF order_refl this]
  from inv have len: "length (gnu_insertion_sort sortPercentage v (length v)) = length v"
    by (rule conjunct1)
  then have tk: "take (length v) (gnu_insertion_sort sortPercentage v (length v)) =
      gnu_insertion_sort sortPercentage v (length v)"
    by simp
  from inv show ?thesis
    unfolding gnu_sort_short [OF assms] tk by simp
qed

lemma scanned_short:
  assumes "length (std_sort (percentItemVector_of h foods)) < 2 ^ 31"
  shows "scanned std_sort h foods = std_sort (percentItemVector_of h foods)"
  using assms by (simp add: scanned_def int_of_size_small)

section \<open>Items of equal ratio in the ranking\<close>

text \<open>
  Claim C5, as the code has it. For a catalog of at most 16 foods the ranking that
  \<open>greedy_max_calories\<close> obtains from the library's sort is a permutation of the catalog in
  descending order of ratio in which foods of equal ratio keep their catalog order, and
  the foods returned are those that the greedy scan picks from this ranking, in its order.
  For a larger catalog foods of equal ratio need not keep their catalog order: of
  seventeen foods of equal ratio the library's sort ranks the ninth first, and with room
  for one food \<open>greedy_max_calories\<close> returns the ninth food of the catalog, not the first.
\<close>

theorem short_catalog_ranking_stable:
  assumes "length foods \<le> 16"
  shows "\<exists>ranking. ranking = gnu_sort partial_sort sortPercentage (percentItemVector_of h foods) \<and>
     mset ranking = mset (percentItemVector_of h foods) \<and>
     sorted_wrt (\<lambda>a b. percent a \<ge> percent b) ranking \<and>
     (\<forall>r. filter (\<lambda>p. percent p = r) ranking =
          filter (\<lambda>p. percent p = r) (percentItemVector_of h foods)) \<and>
     (case greedy_max_calories (gnu_sort partial_sort sortPercentage) h foods W of
        (h', G) \<Rightarrow> deref h' G = map item (picked ranking (greedy_flags W 0 ranking)))"
proof -
  define v where "v = percentItemVector_of h foods"
  define ranking where "ranking = gnu_sort partial_sort sortPercentage v"
  have lv: "length v \<le> 16"
    using assms by (simp add: v_def percentItemVector_of_def)
  note st = gnu_sort_short_stable [OF lv, of partial_sort]
  from st have len: "length ranking = length v" unfolding ranking_def by (rule conjunct1)
  from st have perm: "mset ranking = mset v"
    unfolding ranking_def by (rule conjunct2 [THEN conjunct1])
  from st have sorted: "sorted_wrt (\<lambda>a b. percent a \<ge> percent b) ranking"
    unfolding ranking_def by (rule conjunct2 [THEN conjunct2, THEN conjunct1])
  from st have stable: "\<forall>r. filter (\<lambda>p. percent p = r) ranking = filter (\<lambda>p. percent p = r) v"
    unfolding ranking_def by (rule conjunct2 [THEN conjunct2, THEN conjunct2])
  have "length ranking < 2 ^ 31"
    using len lv by simp
  then have "scanned (gnu_sort partial_sort sortPercentage) h foods = ranking"
    unfolding ranking_def v_def by (rule scanned_short)
  then have "deref (fst (greedy_max_calories (gnu_sort partial_sort sortPercentage) h foods W))
               (snd (greedy_max_calories (gnu_sort partial_sort sortPercentage) h foods W))
      = map item (picked ranking (greedy_flags W 0 ranking))"
    by (simp add: greedy_deref greedy_picked_def)
  then have res: "case greedy_max_calories (gnu_sort partial_sort sortPercentage) h foods W of
        (h', G) \<Rightarrow> deref h' G = map item (picked ranking (greedy_flags W 0 ranking))"
    by (simp only: case_prod_beta)
  from perm sorted stable res show ?thesis
    unfolding v_def [symmetric] by (intro exI [of _ ranking] conjI ranking_def)
qed

theorem short_catalog_ranking_stable_witness:
  "length [0, 1 :: nat] \<le> 16 \<and>
   (\<exists>ranking. ranking = gnu_sort (\<lambda>xs first lastp. xs) sortPercentage (percentItemVector_of pantry [0, 1]) \<and>
     mset ranking = mset (percentItemVector_of pantry [0, 1]) \<and>
     sorted_wrt (\<lambda>a b. percent a \<ge> percent b) ranking \<and>
     (\<forall>r. filter (\<lambda>p. percent p = r) ranking =
          filter (\<lambda>p. percent p = r) (percentItemVector_of pantry [0, 1])) \<and>
     (case greedy_max_calories (gnu_sort (\<lambda>xs first lastp. xs) sortPercentage) pantry [0, 1] 10 of
        (h', G) \<Rightarrow> deref h' G = map item (picked ranking (greedy_flags 10 0 ranking))))"
  (is "?L \<and> ?E")
proof -
  have l: ?L by simp
  from l have e: ?E by (rule short_catalog_ranking_stable)
  from l e show ?thesis by (rule conjI)
qed

theorem ties_reordered_counterexample:
  "\<forall>partial_sort.
     map percent (percentItemVector_of shelf [0..<17]) = replicate 17 5 \<and>
     map item (gnu_sort partial_sort sortPercentage (percentItemVector_of shelf [0..<17])) =
       map (\<lambda>i. shelf ! i) [8, 16, 15, 14, 13, 12, 11, 10, 9, 0, 7, 6, 5, 4, 3, 2, 1] \<and>
     filter (\<lambda>p. percent p = 5) (gnu_sort partial_sort sortPercentage (percentItemVector_of shelf [0..<17]))
       \<noteq> filter (\<lambda>p. percent p = 5) (percentItemVector_of shelf [0..<17]) \<and>
     (case greedy_max_calories (gnu_sort partial_sort sortPercentage) shelf [0..<17] 1 of
        (h', G) \<Rightarrow> deref h' G = [\<lparr>description = ''i'', weight = 1, foodCalories = 5\<rparr>]) \<and>
     shelf ! 0 = \<lparr>description = ''a'', weight = 1, foodCalories = 5\<rparr>"
proof (intro allI conjI)
  fix partial_sort :: "percentItem list \<Rightarrow> nat \<Rightarrow> nat \<Rightarrow> percentItem list"
  show "map percent (percentItemVector_of shelf [0..<17]) = replicate 17 5"
    by (rule shelf_ratios)
  show "map item (gnu_sort partial_sort sortPercentage (percentItemVector_of shelf [0..<17])) =
       map (\<lambda>i. shelf ! i) [8, 16, 15, 14, 13, 12, 11, 10, 9, 0, 7, 6, 5, 4, 3, 2, 1]"
    by (rule shelf_ranking)
  show "filter (\<lambda>p. percent p = 5) (gnu_sort partial_sort sortPercentage (percentItemVector_of shelf [0..<17]))
       \<noteq> filter (\<lambda>p. percent p = 5) (percentItemVector_of shelf [0..<17])"
  proof
    assume "filter (\<lambda>p. percent p = 5) (gnu_sort partial_sort sortPercentage (percentItemVector_of shelf [0..<17]))
       = filter (\<lambda>p. percent p = 5) (percentItemVector_of shelf [0..<17])"
    then have "map item (filter (\<lambda>p. percent p = 5) (gnu_sort partial_sort sortPercentage (percentItemVector_of shelf [0..<17])))
       = map item (filter (\<lambda>p. percent p = 5) (percentItemVector_of shelf [0..<17]))"
      by (rule arg_cong)
    then show False by code_simp
  qed
  show "case greedy_max_calories (gnu_sort partial_sort sortPercentage) shelf [0..<17] 1 of
        (h', G) \<Rightarrow> deref h' G = [\<lparr>description = ''i'', weight = 1, foodCalories = 5\<rparr>]"
    by (rule shelf_greedy)
  show "shelf ! 0 = \<lparr>description = ''a'', weight = 1, foodCalories = 5\<rparr>"
    by (rule shelf_first)
qed

end
